theory Spec2Isabelle
  imports
    Complex_Main
    "HOL-Library.AList"
    "HOL-Library.Char_ord"
    "HOL-Library.List_Lexorder"
    "HOL-Library.Log_Nat"
    "HOL-Library.Multiset"
    "HOL-Library.Sublist"
begin

section \<open>JavaScript values\<close>

text \<open>
  The cells of a record are JavaScript primitives. A number is NaN, +Infinity, -Infinity or a
  rational; the numbers of the engine are the binary64 values among the rationals, and what
  the code computes (a number read from a string, a difference) is rounded to binary64. The
  zero has no sign. A string is a list of UTF-16 code units below 256.
\<close>

datatype jsnum = NaN | Fin rat | PInf | NInf

datatype jsval = JUndefined | JNull | JBool bool | JNum jsnum | JStr string

type_synonym row = "jsval list"

text \<open>What the code throws: a bare string (\<open>throw '...'\<close>), an \<open>Error\<close> object, or the
  \<open>TypeError\<close> the engine raises on a call of \<open>undefined\<close> or a property read of
  \<open>undefined\<close>/\<open>null\<close>.\<close>

datatype error = Thrown string | Error string | TypeError string

subsection \<open>Characters and strings\<close>

definition is_digit :: "char \<Rightarrow> bool" where
  "is_digit c = (c \<in> set ''0123456789'')"

text \<open>The class \<open>\s\<close> of a regular expression, and the white space that \<open>parseFloat\<close> and
  the string-to-number conversion skip: space, tab, line feed, vertical tab, form feed,
  carriage return and the no-break space U+00A0.\<close>

definition is_space :: "char \<Rightarrow> bool" where
  "is_space c =
     (c \<in> set [CHR '' '', CHR 0x09, CHR 0x0A, CHR 0x0B, CHR 0x0C, CHR 0x0D, CHR 0xA0])"

definition digit_val :: "char \<Rightarrow> nat" where
  "digit_val c = (case map_of (zip ''0123456789'' [0 ..< 10]) c of Some d \<Rightarrow> d | None \<Rightarrow> 0)"

definition digit_char :: "nat \<Rightarrow> char" where
  "digit_char d = ''0123456789'' ! (d mod 10)"

definition digits_value :: "string \<Rightarrow> nat" where
  "digits_value ds = foldl (\<lambda>acc c. 10 * acc + digit_val c) 0 ds"

fun string_of_nat :: "nat \<Rightarrow> string" where
  "string_of_nat n =
     (if n < 10 then [digit_char n] else string_of_nat (n div 10) @ [digit_char (n mod 10)])"

declare string_of_nat.simps [simp del]

text \<open>\<open>String.prototype.toLowerCase\<close>: the letters below 256 with a lower-case form are
  \<open>A\<close> to \<open>Z\<close> (65 to 90) and U+00C0 to U+00DE without the sign U+00D7; the lower-case form
  is 32 higher.\<close>

definition lower_char :: "char \<Rightarrow> char" where
  "lower_char c =
     (let n = (of_char c :: nat)
      in if (65 \<le> n \<and> n \<le> 90) \<or> (192 \<le> n \<and> n \<le> 222 \<and> n \<noteq> 215)
         then char_of (n + 32) else c)"

definition toLowerCase :: "string \<Rightarrow> string" where
  "toLowerCase s = map lower_char s"

text \<open>\<open>String.prototype.includes\<close>: the argument occurs as a contiguous substring.\<close>

fun starts_with :: "string \<Rightarrow> string \<Rightarrow> bool" where
  "starts_with s [] = True"
| "starts_with [] (p # ps) = False"
| "starts_with (c # cs) (p # ps) = (c = p \<and> starts_with cs ps)"

fun str_includes :: "string \<Rightarrow> string \<Rightarrow> bool" where
  "str_includes [] p = (p = [])"
| "str_includes (c # cs) p = (starts_with (c # cs) p \<or> str_includes cs p)"

text \<open>\<open>String.prototype.split\<close> with a one-character separator.\<close>

fun split_char :: "char \<Rightarrow> string \<Rightarrow> string list" where
  "split_char sep [] = [[]]"
| "split_char sep (c # cs) =
     (if c = sep then [] # split_char sep cs
      else (case split_char sep cs of p # ps \<Rightarrow> (c # p) # ps | [] \<Rightarrow> [[c]]))"

text \<open>An array element read \<open>a[i]\<close>: \<open>undefined\<close> outside the array.\<close>

definition nth_or_undefined :: "string list \<Rightarrow> nat \<Rightarrow> string" where
  "nth_or_undefined xs i = (if i < length xs then xs ! i else ''undefined'')"

subsection \<open>Number to string\<close>

text \<open>
  \<open>Number.prototype.toString\<close>: an integer prints its decimal digits; any other value prints
  its integer part, a point and the digits of its decimal expansion (at most 20 here; the
  exponent notation of very large and very small numbers is not modelled).
\<close>

fun frac_digits :: "nat \<Rightarrow> rat \<Rightarrow> string" where
  "frac_digits 0 f = []"
| "frac_digits (Suc n) f =
     (if f = 0 then []
      else digit_char (nat \<lfloor>f * 10\<rfloor>) # frac_digits n (f * 10 - of_int \<lfloor>f * 10\<rfloor>))"

definition pos_rat_to_string :: "rat \<Rightarrow> string" where
  "pos_rat_to_string r =
     (let ip = nat \<lfloor>r\<rfloor>; fr = r - of_nat ip
      in if fr = 0 then string_of_nat ip else string_of_nat ip @ ''.'' @ frac_digits 20 fr)"

definition number_to_string :: "jsnum \<Rightarrow> string" where
  "number_to_string n =
     (case n of
        NaN \<Rightarrow> ''NaN''
      | PInf \<Rightarrow> ''Infinity''
      | NInf \<Rightarrow> ''-Infinity''
      | Fin r \<Rightarrow> (if r < 0 then ''-'' @ pos_rat_to_string (- r) else pos_rat_to_string r))"

text \<open>\<open>String(v)\<close>, the conversion that \<open>RegExp.prototype.test\<close> applies to its argument too.\<close>

definition js_String :: "jsval \<Rightarrow> string" where
  "js_String v =
     (case v of
        JUndefined \<Rightarrow> ''undefined''
      | JNull \<Rightarrow> ''null''
      | JBool b \<Rightarrow> (if b then ''true'' else ''false'')
      | JNum n \<Rightarrow> number_to_string n
      | JStr s \<Rightarrow> s)"

text \<open>The method call \<open>v.toString()\<close>: a \<open>TypeError\<close> on \<open>undefined\<close> and \<open>null\<close>.\<close>

definition toString_method :: "jsval \<Rightarrow> error + string" where
  "toString_method v =
     (case v of
        JUndefined \<Rightarrow> Inl (TypeError ''Cannot read properties of undefined (reading 'toString')'')
      | JNull \<Rightarrow> Inl (TypeError ''Cannot read properties of null (reading 'toString')'')
      | _ \<Rightarrow> Inr (js_String v))"

text \<open>Truthiness: \<open>undefined\<close>, \<open>null\<close>, \<open>false\<close>, \<open>0\<close>, \<open>NaN\<close> and \<open>''\<close> are falsy.\<close>

definition truthy :: "jsval \<Rightarrow> bool" where
  "truthy v =
     (case v of
        JUndefined \<Rightarrow> False
      | JNull \<Rightarrow> False
      | JBool b \<Rightarrow> b
      | JNum n \<Rightarrow> n \<noteq> NaN \<and> n \<noteq> Fin 0
      | JStr s \<Rightarrow> s \<noteq> [])"

section \<open>Regular expressions\<close>

text \<open>
  The regular expressions of the code are sequences of items \<open>class{min,max}\<close>, where a class
  is \<open>\d\<close>, \<open>\s\<close> or one literal character. An item is greedy and gives characters back when
  the rest of the pattern fails, as the backtracking matcher of the engine does.
\<close>

datatype cclass = Digit | Space | Lit char

fun in_class :: "cclass \<Rightarrow> char \<Rightarrow> bool" where
  "in_class Digit c = is_digit c"
| "in_class Space c = is_space c"
| "in_class (Lit l) c = (c = l)"

text \<open>An item: the class, the least count and the greatest count (\<open>None\<close>: unbounded).\<close>

type_synonym item = "cclass \<times> nat \<times> nat option"

fun first_some :: "'a option list \<Rightarrow> 'a option" where
  "first_some [] = None"
| "first_some (None # xs) = first_some xs"
| "first_some (Some x # xs) = Some x"

text \<open>\<open>match_here p s\<close>: the length of the match of \<open>p\<close> anchored at the start of \<open>s\<close>.\<close>

fun match_here :: "item list \<Rightarrow> string \<Rightarrow> nat option" where
  "match_here [] s = Some 0"
| "match_here ((c, lo, hi) # p) s =
     (let avail = length (takeWhile (in_class c) s);
          n = (case hi of None \<Rightarrow> avail | Some h \<Rightarrow> min h avail)
      in first_some (map (\<lambda>k. map_option ((+) k) (match_here p (drop k s))) (rev [lo ..< Suc n])))"

declare match_here.simps [simp del]

text \<open>The leftmost match: the text before it and the matched text.\<close>

fun search :: "item list \<Rightarrow> string \<Rightarrow> (string \<times> string) option" where
  "search p [] = (case match_here p [] of Some k \<Rightarrow> Some ([], []) | None \<Rightarrow> None)"
| "search p (c # cs) =
     (case match_here p (c # cs) of
        Some k \<Rightarrow> Some ([], take k (c # cs))
      | None \<Rightarrow> (case search p cs of Some (pre, m) \<Rightarrow> Some (c # pre, m) | None \<Rightarrow> None))"

text \<open>\<open>regexp.test(s)\<close>, and element 0 of \<open>s.match(regexp)\<close> (\<open>None\<close> for the result \<open>null\<close>).\<close>

definition regex_test :: "item list \<Rightarrow> string \<Rightarrow> bool" where
  "regex_test p s = (search p s \<noteq> None)"

definition regex_match :: "item list \<Rightarrow> string \<Rightarrow> string option" where
  "regex_match p s = map_option snd (search p s)"

text \<open>\<open>s.split(regexp)\<close> for a pattern that matches no empty string: \<open>cur\<close> holds the piece
  read so far, reversed.\<close>

function split_regex_from :: "item list \<Rightarrow> string \<Rightarrow> string \<Rightarrow> string list" where
  "split_regex_from p cur [] = [rev cur]"
| "split_regex_from p cur (c # cs) =
     (case match_here p (c # cs) of
        Some k \<Rightarrow> (if 0 < k then rev cur # split_regex_from p [] (drop k (c # cs))
                   else split_regex_from p (c # cur) cs)
      | None \<Rightarrow> split_regex_from p (c # cur) cs)"
  by pat_completeness auto
termination
  by (relation "measure (\<lambda>(p, cur, s). length s)") auto

definition split_regex :: "item list \<Rightarrow> string \<Rightarrow> string list" where
  "split_regex p s = split_regex_from p [] s"

subsection \<open>The patterns of the code\<close>

text \<open>\<open>DataCollection.euDateTimeRegExp\<close>:
  \<^verbatim>\<open>/\d{1,2}\/\d{1,2}\/\d{4}\s{0,1}:{0,1}\d{0,2}:{0,1}\d{0,2}:{0,1}\d{0,2}/\<close>\<close>

definition euDateTimeRegExp :: "item list" where
  "euDateTimeRegExp =
     [(Digit, 1, Some 2), (Lit CHR ''/'', 1, Some 1), (Digit, 1, Some 2), (Lit CHR ''/'', 1, Some 1),
      (Digit, 4, Some 4), (Space, 0, Some 1),
      (Lit CHR '':'', 0, Some 1), (Digit, 0, Some 2),
      (Lit CHR '':'', 0, Some 1), (Digit, 0, Some 2),
      (Lit CHR '':'', 0, Some 1), (Digit, 0, Some 2)]"

text \<open>\<^verbatim>\<open>\d{4}-\d{1,2}-\d{1,2}\<close>, of \<open>convertIsoDateInEuDate\<close>.\<close>

definition isoDateFormatRegex :: "item list" where
  "isoDateFormatRegex =
     [(Digit, 4, Some 4), (Lit CHR ''-'', 1, Some 1), (Digit, 1, Some 2), (Lit CHR ''-'', 1, Some 1),
      (Digit, 1, Some 2)]"

text \<open>\<^verbatim>\<open>\d{1,2}:\d{1,2}:\d{1,2}\<close>, the time of day in both conversions.\<close>

definition timeRegex :: "item list" where
  "timeRegex =
     [(Digit, 1, Some 2), (Lit CHR '':'', 1, Some 1), (Digit, 1, Some 2), (Lit CHR '':'', 1, Some 1),
      (Digit, 1, Some 2)]"

text \<open>\<^verbatim>\<open>\d{4}-\d{1,2}-\d{1,2}T\d{1,2}:\d{1,2}:\d{1,2}\<close>, of \<open>convertIsoDateInEuDate\<close>.\<close>

definition isoDateTimeFormatRegex :: "item list" where
  "isoDateTimeFormatRegex = isoDateFormatRegex @ [(Lit CHR ''T'', 1, Some 1)] @ timeRegex"

text \<open>\<^verbatim>\<open>\d{1,2}\s{0,1}/\s{0,1}\d{1,2}\s{0,1}/\s{0,1}\d{4}\<close>, of \<open>convertEuDateInIsoDate\<close>.\<close>

definition euDateFormatRegex :: "item list" where
  "euDateFormatRegex =
     [(Digit, 1, Some 2), (Space, 0, Some 1), (Lit CHR ''/'', 1, Some 1), (Space, 0, Some 1),
      (Digit, 1, Some 2), (Space, 0, Some 1), (Lit CHR ''/'', 1, Some 1), (Space, 0, Some 1),
      (Digit, 4, Some 4)]"

text \<open>The date-and-time pattern of \<open>convertEuDateInIsoDate\<close>. Its source string is
  \<^verbatim>\<open>'...\\d{4}s\\d{1,2}:\\d{1,2}:\\d{1,2}'\<close>: between the year and the time stands the
  letter \<open>s\<close>, not the class \<open>\s\<close>.\<close>

definition euDateTimeFormatRegex :: "item list" where
  "euDateTimeFormatRegex = euDateFormatRegex @ [(Lit CHR ''s'', 1, Some 1)] @ timeRegex"

text \<open>\<^verbatim>\<open>/ {0,}\/ {0,}/\<close>, the separator that splits the extracted EU date.\<close>

definition slashSeparatorRegex :: "item list" where
  "slashSeparatorRegex = [(Lit CHR '' '', 0, None), (Lit CHR ''/'', 1, Some 1), (Lit CHR '' '', 0, None)]"

section \<open>Date utilities\<close>

text \<open>
  \<open>convertIsoDateInEuDate(isoDateString, spaced, lineBreak)\<close>. Both callers in the data
  collection pass a value that \<open>RegExp.prototype.test\<close> converts to a string; the method call
  \<open>isoDateString.match\<close> is reached only after a successful test, and the model takes the
  string.
\<close>

definition convertIsoDateInEuDate :: "string \<Rightarrow> string \<Rightarrow> bool \<Rightarrow> string" where
  "convertIsoDateInEuDate isoDateString spaced lineBreak =
     (let datePart =
            (case regex_match isoDateFormatRegex isoDateString of
               None \<Rightarrow> []
             | Some isoDate \<Rightarrow>
                 (let arrayIsoDate = (if isoDate \<noteq> [] then split_char CHR ''-'' isoDate
                                      else [''-'', ''-'', ''-''])
                  in if spaced = ''spaced''
                     then nth_or_undefined arrayIsoDate 2 @ '' / '' @ nth_or_undefined arrayIsoDate 1
                          @ '' / '' @ nth_or_undefined arrayIsoDate 0
                     else nth_or_undefined arrayIsoDate 2 @ ''/'' @ nth_or_undefined arrayIsoDate 1
                          @ ''/'' @ nth_or_undefined arrayIsoDate 0));
          timePart =
            (if regex_test isoDateTimeFormatRegex isoDateString
             then (case regex_match timeRegex isoDateString of
                     Some isoTime \<Rightarrow>
                       (if isoTime \<noteq> [] then (if lineBreak then ''<br />'' else '' '') @ isoTime
                        else '' -:-:-'')
                   | None \<Rightarrow> [])
             else [])
      in datePart @ timePart)"

text \<open>\<open>convertEuDateInIsoDate(euDateString)\<close>.\<close>

definition convertEuDateInIsoDate :: "string \<Rightarrow> string" where
  "convertEuDateInIsoDate euDateString =
     (let datePart =
            (case regex_match euDateFormatRegex euDateString of
               None \<Rightarrow> []
             | Some extractedDate \<Rightarrow>
                 (let arrayDate = split_regex slashSeparatorRegex extractedDate
                  in nth_or_undefined arrayDate 2 @ ''-'' @ nth_or_undefined arrayDate 1 @ ''-''
                     @ nth_or_undefined arrayDate 0));
          timePart =
            (if regex_test euDateTimeFormatRegex euDateString
             then (case regex_match timeRegex euDateString of
                     Some extractedTime \<Rightarrow> ''T'' @ extractedTime
                   | None \<Rightarrow> [])
             else [])
      in datePart @ timePart)"

section \<open>Rounding to binary64\<close>

text \<open>
  A binary64 value is a multiple of a power of two by an integer below \<open>2^53\<close>; the power is
  \<open>2^(e - 52)\<close> for a magnitude in \<open>[2^e, 2^(e + 1))\<close>, and \<open>2^(-1074)\<close> below \<open>2^(-1022)\<close>.
  A rational is rounded to the nearest such multiple, a tie to the even one, and to an
  infinity when the result reaches \<open>2^1024\<close>.
\<close>

text \<open>The exponent \<open>e\<close> with \<open>2^e \<le> a < 2^(e + 1)\<close>, for a positive \<open>a\<close>.\<close>

definition floor_log2 :: "rat \<Rightarrow> int" where
  "floor_log2 a =
     (let (p, q) = quotient_of a; e = bitlen p - bitlen q
      in if 2 powi e \<le> a then e else e - 1)"

definition round_half_even :: "rat \<Rightarrow> int" where
  "round_half_even m =
     (let f = \<lfloor>m\<rfloor>; d = m - of_int f
      in if d < 1 / 2 then f else if 1 / 2 < d then f + 1 else if even f then f else f + 1)"

text \<open>The distance between neighbouring binary64 values of a magnitude with the exponent
  \<open>e\<close>.\<close>

definition ulp :: "int \<Rightarrow> rat" where
  "ulp e = 2 powi (if e < - 1022 then - 1074 else e - 52)"

text \<open>The rounded magnitude \<open>v\<close> is out of range when it reaches \<open>2^1024\<close>; a magnitude with
  an exponent below 1023 is below \<open>2^1023\<close> and cannot round that high.\<close>

definition overflows :: "int \<Rightarrow> rat \<Rightarrow> bool" where
  "overflows e v = (if e < 1023 then False else 2 powi 1024 \<le> v)"

definition round_to_double :: "rat \<Rightarrow> jsnum" where
  "round_to_double r =
     (if r = 0 then Fin 0
      else (let a = \<bar>r\<bar>; e = floor_log2 a;
                v = of_int (round_half_even (a / ulp e)) * ulp e
            in if overflows e v then (if 0 < r then PInf else NInf)
               else Fin (if 0 < r then v else - v)))"

section \<open>Numbers read from strings\<close>

definition strip_sign :: "string \<Rightarrow> int \<times> string" where
  "strip_sign s =
     (case s of
        c # cs \<Rightarrow> (if c = CHR ''+'' then (1, cs) else if c = CHR ''-'' then (- 1, cs) else (1, s))
      | [] \<Rightarrow> (1, s))"

definition pow10 :: "int \<Rightarrow> rat" where
  "pow10 e = (if 0 \<le> e then 10 ^ nat e else 1 / 10 ^ nat (- e))"

text \<open>An exponent part \<open>e\<close>/\<open>E\<close>, sign, digits; it is read only when it is complete.\<close>

definition parse_exponent :: "string \<Rightarrow> int \<times> string" where
  "parse_exponent s =
     (case s of
        c # cs \<Rightarrow>
          (if c = CHR ''e'' \<or> c = CHR ''E''
           then (let (sg, t) = strip_sign cs; ds = takeWhile is_digit t
                 in if ds = [] then (0, s) else (sg * int (digits_value ds), dropWhile is_digit t))
           else (0, s))
      | [] \<Rightarrow> (0, s))"

text \<open>The longest prefix that is an unsigned decimal literal (\<open>12\<close>, \<open>12.\<close>, \<open>12.5\<close>, \<open>.5\<close>, each
  with an optional exponent): its value and the rest of the string.\<close>

definition parse_unsigned_decimal :: "string \<Rightarrow> (rat \<times> string) option" where
  "parse_unsigned_decimal s =
     (let ip = takeWhile is_digit s; r1 = dropWhile is_digit s;
          (fp, r2) = (case r1 of
                        c # cs \<Rightarrow> (if c = CHR ''.'' \<and> (ip \<noteq> [] \<or> takeWhile is_digit cs \<noteq> [])
                                   then (takeWhile is_digit cs, dropWhile is_digit cs)
                                   else ([], r1))
                      | [] \<Rightarrow> ([], r1))
      in if ip = [] \<and> fp = [] then None
         else (let mant = of_nat (digits_value ip) + of_nat (digits_value fp) / 10 ^ length fp;
                   (ex, r3) = parse_exponent r2
               in Some (mant * pow10 ex, r3)))"

text \<open>The longest prefix that is a \<open>StrDecimalLiteral\<close>: a sign, then \<open>Infinity\<close> or an
  unsigned decimal literal, whose value is rounded to binary64.\<close>

definition parse_StrDecimalLiteral :: "string \<Rightarrow> (jsnum \<times> string) option" where
  "parse_StrDecimalLiteral s =
     (let (sg, t) = strip_sign s
      in if starts_with t ''Infinity'' then Some (if sg = 1 then PInf else NInf, drop 8 t)
         else (case parse_unsigned_decimal t of
                 None \<Rightarrow> None
               | Some (v, r) \<Rightarrow> Some (round_to_double (of_int sg * v), r)))"

text \<open>\<open>parseFloat\<close>: the argument as a string, leading white space skipped, the longest
  decimal prefix read. A number prints to a string that reads back as the same number.\<close>

definition parseFloat_string :: "string \<Rightarrow> jsnum" where
  "parseFloat_string s =
     (case parse_StrDecimalLiteral (dropWhile is_space s) of None \<Rightarrow> NaN | Some (v, r) \<Rightarrow> v)"

definition js_parseFloat :: "jsval \<Rightarrow> jsnum" where
  "js_parseFloat v = (case v of JNum n \<Rightarrow> n | _ \<Rightarrow> parseFloat_string (js_String v))"

text \<open>Literals \<open>0x..\<close>, \<open>0o..\<close>, \<open>0b..\<close> of the string-to-number conversion.\<close>

definition radix_digit :: "char \<Rightarrow> nat option" where
  "radix_digit c =
     map_of (zip ''0123456789abcdef'' [0 ..< 16] @ zip ''ABCDEF'' [10 ..< 16]) c"

definition radix_value :: "nat \<Rightarrow> string \<Rightarrow> jsnum" where
  "radix_value b ds =
     (if ds \<noteq> [] \<and> list_all (\<lambda>c. case radix_digit c of Some d \<Rightarrow> d < b | None \<Rightarrow> False) ds
      then round_to_double (of_nat (foldl (\<lambda>acc c. b * acc + the (radix_digit c)) 0 ds))
      else NaN)"

definition radix_literal :: "string \<Rightarrow> jsnum" where
  "radix_literal t =
     (case t of
        z # x # ds \<Rightarrow>
          (if z \<noteq> CHR ''0'' then NaN
           else if x = CHR ''x'' \<or> x = CHR ''X'' then radix_value 16 ds
           else if x = CHR ''o'' \<or> x = CHR ''O'' then radix_value 8 ds
           else if x = CHR ''b'' \<or> x = CHR ''B'' then radix_value 2 ds
           else NaN)
      | _ \<Rightarrow> NaN)"

definition trim :: "string \<Rightarrow> string" where
  "trim s = rev (dropWhile is_space (rev (dropWhile is_space s)))"

text \<open>The conversion of a string to a number (\<open>Number(s)\<close>): the whole trimmed string must be
  a literal; the empty string is 0.\<close>

definition StringToNumber :: "string \<Rightarrow> jsnum" where
  "StringToNumber s =
     (let t = trim s
      in if t = [] then Fin 0
         else (case parse_StrDecimalLiteral t of
                 Some (v, r) \<Rightarrow> (if r = [] then v else radix_literal t)
               | None \<Rightarrow> radix_literal t))"

definition js_ToNumber :: "jsval \<Rightarrow> jsnum" where
  "js_ToNumber v =
     (case v of
        JUndefined \<Rightarrow> NaN
      | JNull \<Rightarrow> Fin 0
      | JBool b \<Rightarrow> Fin (if b then 1 else 0)
      | JNum n \<Rightarrow> n
      | JStr s \<Rightarrow> StringToNumber s)"

definition js_isNaN :: "jsnum \<Rightarrow> bool" where
  "js_isNaN n = (n = NaN)"

definition js_isFinite :: "jsval \<Rightarrow> bool" where
  "js_isFinite v = (case js_ToNumber v of Fin r \<Rightarrow> True | _ \<Rightarrow> False)"

text \<open>The operator \<open><\<close>: two strings compare by code units, lexicographically; any other pair
  is converted to numbers, and a comparison with NaN is false.\<close>

definition num_less :: "jsnum \<Rightarrow> jsnum \<Rightarrow> bool" where
  "num_less x y =
     (case (x, y) of
        (NaN, _) \<Rightarrow> False
      | (_, NaN) \<Rightarrow> False
      | (Fin a, Fin b) \<Rightarrow> a < b
      | (NInf, NInf) \<Rightarrow> False
      | (NInf, _) \<Rightarrow> True
      | (_, NInf) \<Rightarrow> False
      | (PInf, _) \<Rightarrow> False
      | (_, PInf) \<Rightarrow> True)"

definition js_less :: "jsval \<Rightarrow> jsval \<Rightarrow> bool" where
  "js_less a b =
     (case (a, b) of
        (JStr s, JStr t) \<Rightarrow> s < t
      | _ \<Rightarrow> num_less (js_ToNumber a) (js_ToNumber b))"

text \<open>The value of a finite number (used only under a test for finiteness).\<close>

definition fin_value :: "jsnum \<Rightarrow> rat" where
  "fin_value n = (case n of Fin r \<Rightarrow> r | _ \<Rightarrow> 0)"

subsection \<open>Date.parse\<close>

text \<open>
  \<open>Date.parse\<close> of the date-only form \<open>YYYY-MM-DD\<close> with a valid month and day is the number of
  milliseconds from 1970-01-01 to that day at midnight UTC. For every other string the result
  depends on the engine (its fallback formats) and on the local time zone; the model takes it
  from the parameter \<open>eng\<close>.
\<close>

definition is_leap :: "int \<Rightarrow> bool" where
  "is_leap y = (y mod 4 = 0 \<and> (y mod 100 \<noteq> 0 \<or> y mod 400 = 0))"

definition days_in_month :: "int \<Rightarrow> int \<Rightarrow> int" where
  "days_in_month y m =
     (if m = 2 then (if is_leap y then 29 else 28)
      else if m = 4 \<or> m = 6 \<or> m = 9 \<or> m = 11 then 30 else 31)"

definition days_from_civil :: "int \<Rightarrow> int \<Rightarrow> int \<Rightarrow> int" where
  "days_from_civil y m d =
     (let y' = (if m \<le> 2 then y - 1 else y);
          era = y' div 400;
          yoe = y' - era * 400;
          doy = (153 * (if 2 < m then m - 3 else m + 9) + 2) div 5 + d - 1;
          doe = yoe * 365 + yoe div 4 - yoe div 100 + doy
      in era * 146097 + doe - 719468)"

definition iso_date_fields :: "string \<Rightarrow> (int \<times> int \<times> int) option" where
  "iso_date_fields s =
     (if length s = 10 \<and> s ! 4 = CHR ''-'' \<and> s ! 7 = CHR ''-''
         \<and> list_all is_digit (take 4 s) \<and> list_all is_digit (take 2 (drop 5 s))
         \<and> list_all is_digit (drop 8 s)
      then Some (int (digits_value (take 4 s)), int (digits_value (take 2 (drop 5 s))),
                 int (digits_value (drop 8 s)))
      else None)"

definition Date_parse :: "(string \<Rightarrow> jsnum) \<Rightarrow> string \<Rightarrow> jsnum" where
  "Date_parse eng s =
     (case iso_date_fields s of
        Some (y, m, d) \<Rightarrow>
          (if 1 \<le> m \<and> m \<le> 12 \<and> 1 \<le> d \<and> d \<le> days_in_month y m
           then Fin (of_int (days_from_civil y m d * 86400000))
           else eng s)
      | None \<Rightarrow> eng s)"

text \<open>An engine that knows no format but the standard one.\<close>

definition strict_engine :: "string \<Rightarrow> jsnum" where
  "strict_engine s = NaN"

subsection \<open>Arithmetic on numbers\<close>

text \<open>The operator \<open>-\<close> on two numbers: the difference of two finite numbers is rounded.\<close>

definition num_sub :: "jsnum \<Rightarrow> jsnum \<Rightarrow> jsnum" where
  "num_sub x y =
     (case (x, y) of
        (NaN, _) \<Rightarrow> NaN
      | (_, NaN) \<Rightarrow> NaN
      | (Fin a, Fin b) \<Rightarrow> round_to_double (a - b)
      | (PInf, PInf) \<Rightarrow> NaN
      | (NInf, NInf) \<Rightarrow> NaN
      | (PInf, _) \<Rightarrow> PInf
      | (NInf, _) \<Rightarrow> NInf
      | (_, PInf) \<Rightarrow> NInf
      | (_, NInf) \<Rightarrow> PInf)"

text \<open>The product of a finite factor and a number. The factor is the sort direction, 1 or -1,
  and such a product is exact.\<close>

definition num_scale :: "rat \<Rightarrow> jsnum \<Rightarrow> jsnum" where
  "num_scale k x =
     (case x of
        NaN \<Rightarrow> NaN
      | Fin a \<Rightarrow> Fin (k * a)
      | PInf \<Rightarrow> (if k = 0 then NaN else if 0 < k then PInf else NInf)
      | NInf \<Rightarrow> (if k = 0 then NaN else if 0 < k then NInf else PInf))"

section \<open>The data collection\<close>

text \<open>
  An element of the data model passed to the constructor: an object with the optional
  properties \<open>uid\<close>, \<open>sourceField\<close>, \<open>dataType\<close> and \<open>defaultOrder\<close>, or a bare string (which
  has none of these properties).
\<close>

record variable =
  uid :: "string option"
  sourceField :: "string option"
  dataType :: "string option"
  defaultOrder :: "string option"

datatype model_entry = Decl variable | Text string

fun entry_uid :: "model_entry \<Rightarrow> string option" where
  "entry_uid (Decl v) = uid v"
| "entry_uid (Text s) = None"

fun entry_sourceField :: "model_entry \<Rightarrow> string option" where
  "entry_sourceField (Decl v) = sourceField v"
| "entry_sourceField (Text s) = None"

fun entry_dataType :: "model_entry \<Rightarrow> string option" where
  "entry_dataType (Decl v) = dataType v"
| "entry_dataType (Text s) = None"

fun entry_defaultOrder :: "model_entry \<Rightarrow> string option" where
  "entry_defaultOrder (Decl v) = defaultOrder v"
| "entry_defaultOrder (Text s) = None"

text \<open>A property that is a string when present; \<open>p ? p : d\<close> takes \<open>d\<close> when it is absent or
  empty.\<close>

definition or_default :: "string option \<Rightarrow> string \<Rightarrow> string" where
  "or_default p d = (case p of Some s \<Rightarrow> (if s \<noteq> [] then s else d) | None \<Rightarrow> d)"

text \<open>
  The \<open>Map\<close> objects of \<open>this.variables.maps\<close>. A \<open>Map\<close> iterates in insertion order and
  \<open>set\<close> on a present key keeps its place: an association list under \<open>AList.update\<close>.
\<close>

record variable_maps =
  uids :: "(string \<times> string) list"
  reverseUids :: "(string \<times> string) list"
  index :: "(string \<times> nat) list"
  reverseIndex :: "(nat \<times> string) list"
  types :: "(string \<times> string) list"
  sorting :: "(string \<times> string) list"
  filtering :: "(string \<times> string) list"
  defaultOrderMap :: "(string \<times> string) list"

record data_collection =
  variables_list :: "model_entry list"
  variables_size :: nat
  variables_maps :: variable_maps
  dataSet :: "row list"
  temporaryDataSet :: "row list"

definition empty_maps :: variable_maps where
  "empty_maps = \<lparr>uids = [], reverseUids = [], index = [], reverseIndex = [], types = [],
                  sorting = [], filtering = [], defaultOrderMap = []\<rparr>"

text \<open>The constructor: \<open>None\<close> is a missing data model (\<open>undefined\<close> or \<open>null\<close>).\<close>

definition new_DataCollection :: "model_entry list option \<Rightarrow> error + data_collection" where
  "new_DataCollection dataModel =
     (case dataModel of
        Some dm \<Rightarrow> Inr \<lparr>variables_list = dm, variables_size = length dm,
                         variables_maps = empty_maps, dataSet = [], temporaryDataSet = []\<rparr>
      | None \<Rightarrow> Inl (Thrown ''Data Collection Error: data model NOT found or invalid.''))"

subsection \<open>Processing\<close>

text \<open>\<open>_parseDataPoint(dataPoint = '', variableType = 'text')\<close>; \<open>None\<close> is an omitted type.\<close>

definition parseDataPoint :: "jsval \<Rightarrow> string option \<Rightarrow> jsval" where
  "parseDataPoint dataPoint0 variableType0 =
     (let dataPoint1 = (if dataPoint0 = JUndefined then JStr [] else dataPoint0);
          variableType = (case variableType0 of None \<Rightarrow> ''text'' | Some t \<Rightarrow> t);
          dataPoint = (case dataPoint1 of
                         JBool b \<Rightarrow> JStr (if b then ''true'' else ''false'')
                       | _ \<Rightarrow> dataPoint1)
      in if truthy dataPoint
         then (if variableType = ''eu_date''
               then (if regex_test euDateTimeRegExp (js_String dataPoint) then dataPoint
                     else JStr (convertIsoDateInEuDate (js_String dataPoint) ''no-space'' True))
               else dataPoint)
         else (if variableType = ''number'' then JNum (Fin 0)
               else if variableType = ''boolean'' then JStr ''false''
               else JStr ''-''))"

text \<open>A raw record is an object: a property read gives \<open>undefined\<close> for a missing key.\<close>

type_synonym raw_record = "(string \<times> jsval) list"

definition get_property :: "raw_record \<Rightarrow> string \<Rightarrow> jsval" where
  "get_property obj k = (case map_of obj k of Some v \<Rightarrow> v | None \<Rightarrow> JUndefined)"

text \<open>\<open>_parseRecords(rawData)\<close>: one row per raw record, one cell per entry of the map
  \<open>uids\<close>, in its order.\<close>

definition parseRecords :: "variable_maps \<Rightarrow> raw_record list option \<Rightarrow> row list" where
  "parseRecords vm rawData =
     (case rawData of
        None \<Rightarrow> []
      | Some raws \<Rightarrow>
          map (\<lambda>dataPoint.
                 map (\<lambda>(variableUID, variable).
                        parseDataPoint (get_property dataPoint variable) (map_of (types vm) variableUID))
                     (uids vm))
              raws)"

text \<open>\<open>_createDataSet(rawData)\<close>: the temporary data set starts as a copy of the data set.\<close>

definition createDataSet :: "raw_record list option \<Rightarrow> data_collection \<Rightarrow> data_collection" where
  "createDataSet rawData dc =
     (let dataPoints = (case rawData of
                          Some raws \<Rightarrow> (if 0 < length raws then parseRecords (variables_maps dc) rawData
                                        else [])
                        | None \<Rightarrow> [])
      in dc\<lparr>dataSet := dataPoints, temporaryDataSet := dataPoints\<rparr>)"

text \<open>One turn of the loop of \<open>_createVariablesMaps\<close>, for the element \<open>variable\<close> at \<open>i\<close>.\<close>

definition normalise_order :: "string \<Rightarrow> string" where
  "normalise_order rawDefaultOrder =
     (if rawDefaultOrder \<in> set [''asc'', ''ascending''] then ''asc''
      else if rawDefaultOrder \<in> set [''desc'', ''descending''] then ''desc''
      else ''none'')"

definition register_variable ::
  "model_entry list \<Rightarrow> nat \<Rightarrow> model_entry \<Rightarrow> variable_maps \<Rightarrow> error + variable_maps" where
  "register_variable lst i variable vm =
     (let variableUID = or_default (entry_uid variable) (''var_uid_'' @ string_of_nat i)
      in if Text variableUID \<in> set lst
         then Inl (Thrown (''Data Collection Error: '' @ variableUID
                           @ '' already exists. Please, provide another unique UID.''))
         else (case entry_sourceField variable of
                 None \<Rightarrow> Inl (Thrown ''Data Collection Error: one or more variable names and/or source fields are missing.'')
               | Some sf \<Rightarrow>
                   (if sf = []
                    then Inl (Thrown ''Data Collection Error: one or more variable names and/or source fields are missing.'')
                    else Inr (vm\<lparr>uids := AList.update variableUID sf (uids vm),
                                  reverseUids := AList.update sf variableUID (reverseUids vm),
                                  index := AList.update variableUID i (index vm),
                                  reverseIndex := AList.update i variableUID (reverseIndex vm),
                                  types := AList.update variableUID
                                             (or_default (entry_dataType variable) ''text'') (types vm),
                                  defaultOrderMap := AList.update variableUID
                                             (normalise_order
                                               (or_default (entry_defaultOrder variable) ''none''))
                                             (defaultOrderMap vm),
                                  sorting := AList.update variableUID ''none'' (sorting vm),
                                  filtering := AList.update variableUID [] (filtering vm)\<rparr>))))"

text \<open>
  \<open>_createVariablesMaps()\<close>: the loop \<open>for (let i = 0; i < this.variables.size; i++)\<close>. A throw
  leaves the maps as the turns before it wrote them. An index past the end of the list reads
  \<open>undefined\<close>, whose property \<open>uid\<close> cannot be read.
\<close>

function createVariablesMaps_from :: "nat \<Rightarrow> data_collection \<Rightarrow> (error + unit) \<times> data_collection" where
  "createVariablesMaps_from i dc =
     (if i < variables_size dc
      then (if i < length (variables_list dc)
            then (case register_variable (variables_list dc) i (variables_list dc ! i)
                         (variables_maps dc) of
                    Inl e \<Rightarrow> (Inl e, dc)
                  | Inr vm \<Rightarrow> createVariablesMaps_from (Suc i) (dc\<lparr>variables_maps := vm\<rparr>))
            else (Inl (TypeError ''Cannot read properties of undefined (reading 'uid')''), dc))
      else (Inr (), dc))"
  by pat_completeness auto
termination
  by (relation "measure (\<lambda>(i, dc). variables_size dc - i)") auto

declare createVariablesMaps_from.simps [simp del]

definition createVariablesMaps :: "data_collection \<Rightarrow> (error + unit) \<times> data_collection" where
  "createVariablesMaps dc = createVariablesMaps_from 0 dc"

subsection \<open>Data manipulation methods\<close>

text \<open>\<open>buildDataCollection(rawData)\<close>.\<close>

definition buildDataCollection ::
  "raw_record list option \<Rightarrow> data_collection \<Rightarrow> (error + unit) \<times> data_collection" where
  "buildDataCollection rawData dc =
     (case createVariablesMaps dc of
        (Inl e, dc') \<Rightarrow> (Inl e, dc')
      | (Inr u, dc') \<Rightarrow> (Inr (), createDataSet rawData dc'))"

text \<open>
  The methods that the class body of \<open>DataCollection\<close> defines. A call \<open>this.m()\<close> of any other
  name reads \<open>undefined\<close> and throws a \<open>TypeError\<close>.
\<close>

definition DataCollection_methods :: "string list" where
  "DataCollection_methods =
     [''_parseDataPoint'', ''_parseRecords'', ''_createDataSet'', ''_createVariablesMaps'',
      ''buildDataCollection'', ''getDataPoints'', ''loadDataSet'', ''addRecords'', ''addVariable'',
      ''editDataPoints'', ''removeAllData'', ''removeDataPoints'', ''removeVariable'',
      ''sortRecords'', ''filterRecords'']"

text \<open>The own properties of the object \<open>this.variables\<close>, a plain object literal.\<close>

definition variables_properties :: "string list" where
  "variables_properties = [''list'', ''size'', ''maps'']"

definition lookup_function :: "string list \<Rightarrow> string \<Rightarrow> string \<Rightarrow> error + unit" where
  "lookup_function names receiver name =
     (if name \<in> set names then Inr ()
      else Inl (TypeError (receiver @ ''.'' @ name @ '' is not a function'')))"

text \<open>\<open>loadDataSet(rawData)\<close>: it calls \<open>this._resetData()\<close> first.\<close>

definition loadDataSet ::
  "raw_record list option \<Rightarrow> data_collection \<Rightarrow> (error + unit) \<times> data_collection" where
  "loadDataSet rawData dc =
     (case lookup_function DataCollection_methods ''this'' ''_resetData'' of
        Inl e \<Rightarrow> (Inl e, dc)
      | Inr u \<Rightarrow>
          (case rawData of
             Some raws \<Rightarrow> (if 0 < length raws then buildDataCollection rawData dc else (Inr (), dc))
           | None \<Rightarrow> (Inr (), dc)))"

text \<open>\<open>Array.prototype.splice(start, deleteCount)\<close> with no inserted items: the array that is
  left.\<close>

definition splice :: "'a list \<Rightarrow> int \<Rightarrow> int \<Rightarrow> 'a list" where
  "splice xs start deleteCount =
     (let len = int (length xs);
          actualStart = (if start < 0 then max (len + start) 0 else min start len);
          actualDeleteCount = min (max deleteCount 0) (len - actualStart)
      in take (nat actualStart) xs @ drop (nat (actualStart + actualDeleteCount)) xs)"

subsection \<open>Sorting\<close>

text \<open>A cell read \<open>record[i]\<close>: \<open>undefined\<close> past the end of the row.\<close>

definition cell :: "row \<Rightarrow> nat \<Rightarrow> jsval" where
  "cell r i = (if i < length r then r ! i else JUndefined)"

text \<open>
  \<open>variableUID ? this.variables.maps.index.get(variableUID) : -1\<close>: \<open>None\<close> is the result
  \<open>undefined\<close> of \<open>Map.get\<close> on an unknown key.
\<close>

definition variableIndex_of :: "variable_maps \<Rightarrow> string \<Rightarrow> int option" where
  "variableIndex_of vm variableUID =
     (if variableUID \<noteq> [] then map_option int (map_of (index vm) variableUID) else Some (- 1))"

text \<open>
  The comparison function that \<open>sortRecords\<close> passes to \<open>Array.prototype.sort\<close>, on the two
  cells \<open>a[variableIndex]\<close> and \<open>b[variableIndex]\<close>.
\<close>

definition is_numeric :: "jsval \<Rightarrow> bool" where
  "is_numeric v = (\<not> js_isNaN (js_parseFloat v) \<and> js_isFinite v)"

definition compare_values :: "(string \<Rightarrow> jsnum) \<Rightarrow> rat \<Rightarrow> jsval \<Rightarrow> jsval \<Rightarrow> jsnum" where
  "compare_values eng order a0 b0 =
     (let a1 = (if a0 = JUndefined \<or> a0 = JNull then JStr [] else a0);
          b1 = (if b0 = JUndefined \<or> b0 = JNull then JStr [] else b0);
          (dataPointA, dataPointB) =
            (if regex_test euDateTimeRegExp (js_String a1) \<and> regex_test euDateTimeRegExp (js_String b1)
             then (JNum (Date_parse eng (convertEuDateInIsoDate (js_String a1))),
                   JNum (Date_parse eng (convertEuDateInIsoDate (js_String b1))))
             else (a1, b1))
      in if is_numeric dataPointA \<and> is_numeric dataPointB
         then num_scale order (num_sub (js_parseFloat dataPointA) (js_parseFloat dataPointB))
         else if dataPointA \<noteq> JUndefined \<and> dataPointB \<noteq> JUndefined
         then (if js_less dataPointA dataPointB then Fin (order * (- 1))
               else if js_less dataPointB dataPointA then Fin (order * 1)
               else Fin 0)
         else Fin 0)"

definition compareDataPoints :: "(string \<Rightarrow> jsnum) \<Rightarrow> rat \<Rightarrow> nat \<Rightarrow> row \<Rightarrow> row \<Rightarrow> jsnum" where
  "compareDataPoints eng order variableIndex a b =
     compare_values eng order (cell a variableIndex) (cell b variableIndex)"

text \<open>
  \<open>Array.prototype.sort(comparefn)\<close> is a stable sort: \<open>a\<close> stays before \<open>b\<close> unless
  \<open>comparefn(a, b) > 0\<close> (a result NaN counts as 0). Every stable sort gives the same array
  when the comparison function is consistent; the model is the insertion sort. When it is not
  consistent the order is left to the engine, and the model is one possible engine.
\<close>

fun js_insert :: "('a \<Rightarrow> 'a \<Rightarrow> jsnum) \<Rightarrow> 'a \<Rightarrow> 'a list \<Rightarrow> 'a list" where
  "js_insert cmp x [] = [x]"
| "js_insert cmp x (y # ys) =
     (if num_less (Fin 0) (cmp x y) then y # js_insert cmp x ys else x # y # ys)"

fun js_sort :: "('a \<Rightarrow> 'a \<Rightarrow> jsnum) \<Rightarrow> 'a list \<Rightarrow> 'a list" where
  "js_sort cmp [] = []"
| "js_sort cmp (x # xs) = js_insert cmp x (js_sort cmp xs)"

text \<open>The direction factor: \<open>ordering === 'desc' || ordering === 'descending' ? -1 : 1\<close> (\<open>sortState\<close> is the value \<open>ordering\<close> of the map entry).\<close>

definition order_of :: "string \<Rightarrow> rat" where
  "order_of sortState = (if sortState = ''desc'' \<or> sortState = ''descending'' then - 1 else 1)"

text \<open>The callback of \<open>this.variables.maps.sorting.forEach\<close>, run over the entries of the map
  in their order; a throw ends the iteration.\<close>

fun sort_each ::
  "(string \<Rightarrow> jsnum) \<Rightarrow> variable_maps \<Rightarrow> (string \<times> string) list \<Rightarrow> row list \<Rightarrow> error + row list" where
  "sort_each eng vm [] sortedRecords = Inr sortedRecords"
| "sort_each eng vm ((variableUID, sortState) # rest) sortedRecords =
     (if sortState \<noteq> ''none''
      then (case variableIndex_of vm variableUID of
              Some variableIndex \<Rightarrow>
                (if variableUID \<noteq> [] \<and> - 1 < variableIndex
                 then sort_each eng vm rest
                        (js_sort (compareDataPoints eng (order_of sortState) (nat variableIndex))
                           sortedRecords)
                 else Inl (Error ''Error: variable NOT found.''))
            | None \<Rightarrow> Inl (Error ''Error: variable NOT found.''))
      else sort_each eng vm rest sortedRecords)"

text \<open>\<open>sortRecords(records)\<close>: the sorts run on a copy, \<open>Object.assign([], records)\<close>.\<close>

definition sortRecords :: "(string \<Rightarrow> jsnum) \<Rightarrow> variable_maps \<Rightarrow> row list \<Rightarrow> error + row list" where
  "sortRecords eng vm records = sort_each eng vm (sorting vm) records"

subsection \<open>Filtering\<close>

text \<open>The callback of \<open>filteredRecords.filter\<close>: \<open>record[variableIndex]\<close> is \<open>undefined\<close> when
  the index is \<open>undefined\<close> or \<open>-1\<close>, and \<open>toString\<close> then throws.\<close>

definition filter_cell :: "row \<Rightarrow> int option \<Rightarrow> jsval" where
  "filter_cell record variableIndex =
     (case variableIndex of
        Some i \<Rightarrow> (if 0 \<le> i then cell record (nat i) else JUndefined)
      | None \<Rightarrow> JUndefined)"

fun filter_rows :: "int option \<Rightarrow> string \<Rightarrow> row list \<Rightarrow> error + row list" where
  "filter_rows variableIndex v [] = Inr []"
| "filter_rows variableIndex v (record # rest) =
     (case toString_method (filter_cell record variableIndex) of
        Inl e \<Rightarrow> Inl e
      | Inr s \<Rightarrow>
          (case filter_rows variableIndex v rest of
             Inl e \<Rightarrow> Inl e
           | Inr kept \<Rightarrow> Inr (if str_includes (toLowerCase s) v then record # kept else kept)))"

fun filter_each :: "variable_maps \<Rightarrow> (string \<times> string) list \<Rightarrow> row list \<Rightarrow> error + row list" where
  "filter_each vm [] filteredRecords = Inr filteredRecords"
| "filter_each vm ((variableUID, v) # rest) filteredRecords =
     (case filter_rows (variableIndex_of vm variableUID) (toLowerCase v) filteredRecords of
        Inl e \<Rightarrow> Inl e
      | Inr kept \<Rightarrow> filter_each vm rest kept)"

text \<open>\<open>filterRecords(records)\<close>.\<close>

definition filterRecords :: "variable_maps \<Rightarrow> row list \<Rightarrow> error + row list" where
  "filterRecords vm records = filter_each vm (filtering vm) records"

subsection \<open>Removing records and variables\<close>

text \<open>
  \<open>removeDataPoints(firstRecordIndex, lastRecordIndex, variableUIDs)\<close>, called without
  \<open>variableUIDs\<close>: the block under \<open>if (variableUIDs && variableUIDs.length > 0)\<close> is then
  skipped. \<open>None\<close> is an omitted \<open>lastRecordIndex\<close>; 0 is falsy as well.
\<close>

definition removeDataPoints ::
  "(string \<Rightarrow> jsnum) \<Rightarrow> int \<Rightarrow> int option \<Rightarrow> data_collection \<Rightarrow> (error + unit) \<times> data_collection" where
  "removeDataPoints eng firstRecordIndex lastRecordIndex0 dc =
     (let lastRecordIndex =
            (case lastRecordIndex0 of
               Some l \<Rightarrow> (if l \<noteq> 0 then l else int (length (dataSet dc)) - 1)
             | None \<Rightarrow> int (length (dataSet dc)) - 1);
          deleteCount = lastRecordIndex - firstRecordIndex;
          dc1 = dc\<lparr>dataSet := splice (dataSet dc) firstRecordIndex deleteCount\<rparr>
      in case sortRecords eng (variables_maps dc1) (dataSet dc1) of
           Inl e \<Rightarrow> (Inl e, dc1)
         | Inr sortedRecs \<Rightarrow>
             (let dc2 = dc1\<lparr>temporaryDataSet := sortedRecs\<rparr>
              in case filterRecords (variables_maps dc2) (temporaryDataSet dc2) of
                   Inl e \<Rightarrow> (Inl e, dc2)
                 | Inr kept \<Rightarrow> (Inr (), dc2\<lparr>temporaryDataSet := kept\<rparr>)))"

text \<open>
  The two loops of \<open>removeVariable\<close>,
  \<^verbatim>\<open>for (let i = 0; i < this.dataSet.length; i++) { this.dataSet.splice(index, 1); }\<close>:
  the length is read again at every turn. \<open>None\<close> is the index \<open>undefined\<close>, which \<open>splice\<close>
  reads as 0.
\<close>

function splice_loop :: "nat \<Rightarrow> int option \<Rightarrow> 'a list \<Rightarrow> 'a list" where
  "splice_loop i idx xs =
     (if i < length xs
      then splice_loop (Suc i) idx (splice xs (case idx of Some k \<Rightarrow> k | None \<Rightarrow> 0) 1)
      else xs)"
  by pat_completeness auto
termination
  by (relation "measure (\<lambda>(i, idx, xs). length xs - i)") (auto simp: splice_def Let_def)

declare splice_loop.simps [simp del]

text \<open>\<open>removeVariable(variableUID)\<close>: its second statement is \<open>this.variables.splice(index, 1)\<close>.\<close>

definition removeVariable :: "string \<Rightarrow> data_collection \<Rightarrow> (error + unit) \<times> data_collection" where
  "removeVariable variableUID dc =
     (let idx = map_option int (map_of (index (variables_maps dc)) variableUID)
      in case lookup_function variables_properties ''this.variables'' ''splice'' of
           Inl e \<Rightarrow> (Inl e, dc)
         | Inr u \<Rightarrow>
             (Inr (), dc\<lparr>dataSet := splice_loop 0 idx (dataSet dc),
                          temporaryDataSet := splice_loop 0 idx (temporaryDataSet dc)\<rparr>))"

section \<open>Arrays in a store\<close>

text \<open>
  To say that a method leaves the array it is given as it was, arrays of records live in a
  store and are passed by address. \<open>Object.assign([], records)\<close> and \<open>Array.prototype.filter\<close>
  allocate a new array; \<open>Array.prototype.sort\<close> writes into the array it is called on.
\<close>

type_synonym store = "row list list"

definition alloc :: "store \<Rightarrow> row list \<Rightarrow> nat \<times> store" where
  "alloc h xs = (length h, h @ [xs])"

fun sort_each_in_store ::
  "(string \<Rightarrow> jsnum) \<Rightarrow> variable_maps \<Rightarrow> (string \<times> string) list \<Rightarrow> nat \<Rightarrow> store
     \<Rightarrow> (error + nat) \<times> store" where
  "sort_each_in_store eng vm [] sortedRecords h = (Inr sortedRecords, h)"
| "sort_each_in_store eng vm ((variableUID, sortState) # rest) sortedRecords h =
     (if sortState \<noteq> ''none''
      then (case variableIndex_of vm variableUID of
              Some variableIndex \<Rightarrow>
                (if variableUID \<noteq> [] \<and> - 1 < variableIndex
                 then sort_each_in_store eng vm rest sortedRecords
                        (h[sortedRecords :=
                             js_sort (compareDataPoints eng (order_of sortState) (nat variableIndex))
                               (h ! sortedRecords)])
                 else (Inl (Error ''Error: variable NOT found.''), h))
            | None \<Rightarrow> (Inl (Error ''Error: variable NOT found.''), h))
      else sort_each_in_store eng vm rest sortedRecords h)"

definition sortRecords_in_store ::
  "(string \<Rightarrow> jsnum) \<Rightarrow> variable_maps \<Rightarrow> nat \<Rightarrow> store \<Rightarrow> (error + nat) \<times> store" where
  "sortRecords_in_store eng vm records h =
     (let (sortedRecords, h1) = alloc h (h ! records)
      in sort_each_in_store eng vm (sorting vm) sortedRecords h1)"

fun filter_each_in_store ::
  "variable_maps \<Rightarrow> (string \<times> string) list \<Rightarrow> nat \<Rightarrow> store \<Rightarrow> (error + nat) \<times> store" where
  "filter_each_in_store vm [] filteredRecords h = (Inr filteredRecords, h)"
| "filter_each_in_store vm ((variableUID, v) # rest) filteredRecords h =
     (case filter_rows (variableIndex_of vm variableUID) (toLowerCase v) (h ! filteredRecords) of
        Inl e \<Rightarrow> (Inl e, h)
      | Inr kept \<Rightarrow> (let (a, h') = alloc h kept in filter_each_in_store vm rest a h'))"

definition filterRecords_in_store ::
  "variable_maps \<Rightarrow> nat \<Rightarrow> store \<Rightarrow> (error + nat) \<times> store" where
  "filterRecords_in_store vm records h =
     (let (filteredRecords, h1) = alloc h (h ! records)
      in filter_each_in_store vm (filtering vm) filteredRecords h1)"

section \<open>Notions used in the statements\<close>

subsection \<open>Sorting\<close>

text \<open>\<open>a\<close> may stand before \<open>b\<close> under the comparison function \<open>c\<close>: \<open>c(a, b)\<close> is not
  positive.\<close>

text \<open>The rationals that are binary64 values: rounding returns them as they are.\<close>

definition is_binary64 :: "rat \<Rightarrow> bool" where
  "is_binary64 x = (round_to_double x = Fin x)"

definition cmp_le :: "('a \<Rightarrow> 'a \<Rightarrow> jsnum) \<Rightarrow> 'a \<Rightarrow> 'a \<Rightarrow> bool" where
  "cmp_le c a b = (\<not> num_less (Fin 0) (c a b))"

text \<open>A comparison function is consistent on a set of rows when \<open>cmp_le\<close> is total and
  transitive there.\<close>

definition consistent_on :: "('a \<Rightarrow> 'a \<Rightarrow> jsnum) \<Rightarrow> 'a set \<Rightarrow> bool" where
  "consistent_on c S =
     ((\<forall>a\<in>S. \<forall>b\<in>S. cmp_le c a b \<or> cmp_le c b a)
      \<and> (\<forall>a\<in>S. \<forall>b\<in>S. \<forall>d\<in>S. cmp_le c a b \<and> cmp_le c b d \<longrightarrow> cmp_le c a d))"

text \<open>Order by \<open>c\<close> first; rows that tie under \<open>c\<close> are ordered by \<open>R\<close>.\<close>

definition then_by :: "('a \<Rightarrow> 'a \<Rightarrow> jsnum) \<Rightarrow> ('a \<Rightarrow> 'a \<Rightarrow> bool) \<Rightarrow> 'a \<Rightarrow> 'a \<Rightarrow> bool" where
  "then_by c R a b = (cmp_le c a b \<and> (cmp_le c b a \<longrightarrow> R a b))"

text \<open>The lexicographic order of a list of comparison functions, the dominant one first,
  with \<open>R\<close> to break the ties that remain.\<close>

primrec lex_before ::
  "('a \<Rightarrow> 'a \<Rightarrow> jsnum) list \<Rightarrow> ('a \<Rightarrow> 'a \<Rightarrow> bool) \<Rightarrow> 'a \<Rightarrow> 'a \<Rightarrow> bool" where
  "lex_before [] R = R"
| "lex_before (c # cs) R = then_by c (lex_before cs R)"

text \<open>Every entry of the sorting map whose state is not \<open>'none'\<close> names a registered column.\<close>

definition resolvable :: "variable_maps \<Rightarrow> (string \<times> string) list \<Rightarrow> bool" where
  "resolvable vm entries =
     (\<forall>(variableUID, sortState)\<in>set entries.
        sortState \<noteq> ''none'' \<longrightarrow> variableUID \<noteq> [] \<and> map_of (index vm) variableUID \<noteq> None)"

text \<open>The comparison functions of the sorted columns, in the order of the sorting map.\<close>

definition comparators_of ::
  "(string \<Rightarrow> jsnum) \<Rightarrow> variable_maps \<Rightarrow> (string \<times> string) list \<Rightarrow> (row \<Rightarrow> row \<Rightarrow> jsnum) list" where
  "comparators_of eng vm entries =
     map (\<lambda>(variableUID, sortState).
            compareDataPoints eng (order_of sortState) (the (map_of (index vm) variableUID)))
         (filter (\<lambda>(variableUID, sortState). sortState \<noteq> ''none'') entries)"

text \<open>The entry at position \<open>j\<close> of the sorting map is the column of ordinal \<open>j\<close>: the map
  lists the columns in the order of their registration.\<close>

definition in_ordinal_order :: "variable_maps \<Rightarrow> bool" where
  "in_ordinal_order vm =
     (map (map_of (index vm)) (map fst (sorting vm)) = map Some [0 ..< length (sorting vm)])"

text \<open>The ordinals of the columns with a sort state, increasing, each with its state.\<close>

definition sorted_columns :: "variable_maps \<Rightarrow> (nat \<times> string) list" where
  "sorted_columns vm =
     filter (\<lambda>(j, sortState). sortState \<noteq> ''none'')
       (zip [0 ..< length (sorting vm)] (map snd (sorting vm)))"

subsection \<open>Filtering\<close>




subsection \<open>Normalisation\<close>

text \<open>The first step of \<open>_parseDataPoint\<close>: a boolean becomes its string.\<close>

definition stringified :: "jsval \<Rightarrow> jsval" where
  "stringified v = (case v of JBool b \<Rightarrow> JStr (if b then ''true'' else ''false'') | _ \<Rightarrow> v)"

subsection \<open>The comparison function\<close>

text \<open>Step 1 of the comparison: \<open>undefined\<close> and \<open>null\<close> become the empty string.\<close>

definition nullish_to_empty :: "jsval \<Rightarrow> jsval" where
  "nullish_to_empty v = (if v = JUndefined \<or> v = JNull then JStr [] else v)"

text \<open>Both values, as strings, match the EU date/time pattern.\<close>

definition both_eu_dates :: "jsval \<Rightarrow> jsval \<Rightarrow> bool" where
  "both_eu_dates a b =
     (regex_test euDateTimeRegExp (js_String a) \<and> regex_test euDateTimeRegExp (js_String b))"

text \<open>A date \<open>D[D]/M[M]/YYYY\<close> given by its day, month and year: one or two digits, one or
  two, four.\<close>

definition eu_date_string :: "string \<Rightarrow> string \<Rightarrow> string \<Rightarrow> bool" where
  "eu_date_string d m y =
     (list_all is_digit d \<and> 1 \<le> length d \<and> length d \<le> 2
      \<and> list_all is_digit m \<and> 1 \<le> length m \<and> length m \<le> 2
      \<and> list_all is_digit y \<and> length y = 4)"

text \<open>What the comparison function puts in the place of a value that matches the pattern:
  \<open>Date.parse\<close> of the result of \<open>convertEuDateInIsoDate\<close>.\<close>

definition timestamp_of :: "(string \<Rightarrow> jsnum) \<Rightarrow> jsval \<Rightarrow> jsnum" where
  "timestamp_of eng v = Date_parse eng (convertEuDateInIsoDate (js_String v))"

text \<open>The numeric comparison and, failing that, the comparison with \<open><\<close> and \<open>>\<close>, on two
  data points.\<close>

definition compare_after :: "rat \<Rightarrow> jsval \<Rightarrow> jsval \<Rightarrow> jsnum" where
  "compare_after k pa pb =
     (if is_numeric pa \<and> is_numeric pb
      then num_scale k (num_sub (js_parseFloat pa) (js_parseFloat pb))
      else if js_less pa pb then Fin (- k) else if js_less pb pa then Fin k else Fin 0)"

text \<open>A comparison of the two values as case-sensitive strings, times the direction: what
  the specification says of the last step.\<close>

definition string_comparison :: "rat \<Rightarrow> jsval \<Rightarrow> jsval \<Rightarrow> jsnum" where
  "string_comparison k a b =
     (if js_String a < js_String b then Fin (- k)
      else if js_String b < js_String a then Fin k else Fin 0)"

subsection \<open>Arrays in the store\<close>

text \<open>The array that a returned address names.\<close>

definition array_at :: "store \<Rightarrow> error + nat \<Rightarrow> error + row list" where
  "array_at h res = (case res of Inl e \<Rightarrow> Inl e | Inr a \<Rightarrow> Inr (h ! a))"

subsection \<open>ISO dates\<close>

text \<open>Year, month and day of a date \<open>YYYY-M[M]-D[D]\<close>: four digits, one or two, one or two.\<close>

definition iso_date_string :: "string \<Rightarrow> string \<Rightarrow> string \<Rightarrow> bool" where
  "iso_date_string y m d =
     (list_all is_digit y \<and> length y = 4 \<and> list_all is_digit m \<and> 1 \<le> length m \<and> length m \<le> 2
      \<and> list_all is_digit d \<and> 1 \<le> length d \<and> length d \<le> 2)"

text \<open>Hours, minutes and seconds of a time \<open>H[H]:M[M]:S[S]\<close>.\<close>

definition iso_time_string :: "string \<Rightarrow> string \<Rightarrow> string \<Rightarrow> bool" where
  "iso_time_string h mi se =
     (list_all is_digit h \<and> 1 \<le> length h \<and> length h \<le> 2
      \<and> list_all is_digit mi \<and> 1 \<le> length mi \<and> length mi \<le> 2
      \<and> list_all is_digit se \<and> 1 \<le> length se \<and> length se \<le> 2)"

subsection \<open>Field declarations\<close>

text \<open>The identifier that the registry gives to the declaration at ordinal \<open>i\<close>.\<close>

definition effective_uid :: "nat \<Rightarrow> model_entry \<Rightarrow> string" where
  "effective_uid i e = or_default (entry_uid e) (''var_uid_'' @ string_of_nat i)"

definition uids_of :: "model_entry list \<Rightarrow> string list" where
  "uids_of dm = map (\<lambda>i. effective_uid i (dm ! i)) [0 ..< length dm]"

definition source_fields_of :: "model_entry list \<Rightarrow> string list" where
  "source_fields_of dm = map (\<lambda>e. or_default (entry_sourceField e) []) dm"

text \<open>Every element is a declaration with a non-empty source field, and the identifiers are
  pairwise distinct (as they are when no declaration gives one itself).\<close>

definition well_declared :: "model_entry list \<Rightarrow> bool" where
  "well_declared dm =
     ((\<forall>e\<in>set dm. \<exists>v sf. e = Decl v \<and> sourceField v = Some sf \<and> sf \<noteq> [])
      \<and> distinct (uids_of dm))"

section \<open>Example inputs\<close>

definition num_cell :: "int \<Rightarrow> jsval" where
  "num_cell i = JNum (Fin (of_int i))"

definition field_decl :: "string \<Rightarrow> model_entry" where
  "field_decl sf = Decl \<lparr>uid = None, sourceField = Some sf, dataType = None, defaultOrder = None\<rparr>"

definition fresh_collection :: "model_entry list \<Rightarrow> data_collection" where
  "fresh_collection dm =
     \<lparr>variables_list = dm, variables_size = length dm, variables_maps = empty_maps,
      dataSet = [], temporaryDataSet = []\<rparr>"

text \<open>The registry of two columns A and B after \<open>_createVariablesMaps\<close>.\<close>

definition columns_AB :: variable_maps where
  "columns_AB = variables_maps (snd (createVariablesMaps (fresh_collection [field_decl ''A'', field_decl ''B''])))"

text \<open>Both columns set to \<open>'ascending'\<close>, as \<open>sorting.set\<close> does.\<close>

definition columns_AB_ascending :: variable_maps where
  "columns_AB_ascending =
     columns_AB\<lparr>sorting := AList.update ''var_uid_1'' ''ascending''
                              (AList.update ''var_uid_0'' ''ascending'' (sorting columns_AB))\<rparr>"

definition rows_AB :: "row list" where
  "rows_AB = [[num_cell 1, num_cell 2], [num_cell 1, num_cell 1], [num_cell 2, num_cell 1]]"

text \<open>Columns X and Y with the filter texts \<open>ab\<close> and \<open>cd\<close>, and three rows.\<close>

definition columns_XY_filtered :: variable_maps where
  "columns_XY_filtered =
     columns_AB\<lparr>filtering := AList.update ''var_uid_1'' ''cd''
                                (AList.update ''var_uid_0'' ''ab'' (filtering columns_AB))\<rparr>"


text \<open>A collection of one column and ten rows, no sort state and no filter text.\<close>

definition ten_rows :: "row list" where
  "ten_rows = map (\<lambda>i. [num_cell i]) [0, 1, 2, 3, 4, 5, 6, 7, 8, 9]"

definition ten_row_collection :: data_collection where
  "ten_row_collection =
     (snd (createVariablesMaps (fresh_collection [field_decl ''k''])))
       \<lparr>dataSet := ten_rows, temporaryDataSet := ten_rows\<rparr>"

text \<open>Two field declarations with the same source field.\<close>

definition two_emails :: "model_entry list" where
  "two_emails = [field_decl ''email'', field_decl ''email'']"

section \<open>The stable sort\<close>

lemma set_js_insert: "set (js_insert c x ys) = insert x (set ys)"
  by (induction ys) auto

lemma mset_js_insert: "mset (js_insert c x ys) = add_mset x (mset ys)"
  by (induction ys) auto

lemma mset_js_sort: "mset (js_sort c xs) = mset xs"
  by (induction xs) (auto simp: mset_js_insert)

lemma set_js_sort: "set (js_sort c xs) = set xs"
  by (induction xs) (auto simp: set_js_insert)



lemma consistent_on_total:
  "consistent_on c S \<Longrightarrow> a \<in> S \<Longrightarrow> b \<in> S \<Longrightarrow> cmp_le c a b \<or> cmp_le c b a"
  unfolding consistent_on_def by blast

lemma consistent_on_trans:
  "consistent_on c S \<Longrightarrow> a \<in> S \<Longrightarrow> b \<in> S \<Longrightarrow> d \<in> S \<Longrightarrow> cmp_le c a b \<Longrightarrow> cmp_le c b d
   \<Longrightarrow> cmp_le c a d"
  unfolding consistent_on_def by blast

lemma consistent_on_subset: "consistent_on c S \<Longrightarrow> T \<subseteq> S \<Longrightarrow> consistent_on c T"
  unfolding consistent_on_def by blast

lemma sorted_js_insert:
  assumes "consistent_on c (insert x (set ys))"
    and "sorted_wrt (then_by c R) ys"
    and "\<forall>y\<in>set ys. R x y"
  shows "sorted_wrt (then_by c R) (js_insert c x ys)"
  using assms
proof (induction ys)
  case Nil
  then show ?case by simp
next
  case (Cons y ys)
  let ?S = "insert x (set (y # ys))"
  have mem: "x \<in> ?S" "y \<in> ?S" by simp_all
  have total: "cmp_le c x y \<or> cmp_le c y x"
    by (rule consistent_on_total [OF Cons.prems(1) mem])
  have trans: "cmp_le c x z" if "z \<in> set ys" "cmp_le c x y" "cmp_le c y z" for z
  proof -
    have "z \<in> ?S" using that(1) by simp
    then show ?thesis
      by (rule consistent_on_trans [OF Cons.prems(1) mem(1) mem(2) _ that(2) that(3)])
  qed
  have sub: "consistent_on c (insert x (set ys))"
    by (rule consistent_on_subset [OF Cons.prems(1)]) auto
  have tail: "sorted_wrt (then_by c R) ys" and head: "\<forall>z\<in>set ys. then_by c R y z"
    using Cons.prems(2) by simp_all
  have Rx: "R x y" "\<forall>z\<in>set ys. R x z"
    using Cons.prems(3) by simp_all
  show ?case
  proof (cases "num_less (Fin 0) (c x y)")
    case True
    then have nle: "\<not> cmp_le c x y" by (simp add: cmp_le_def)
    with total have yx: "cmp_le c y x" by simp
    have ins: "sorted_wrt (then_by c R) (js_insert c x ys)"
      using Cons.IH [OF sub tail] Rx(2) by simp
    have "then_by c R y x" using yx nle by (simp add: then_by_def)
    with head have "\<forall>z\<in>set (js_insert c x ys). then_by c R y z"
      by (simp add: set_js_insert)
    with ins True show ?thesis by simp
  next
    case False
    then have le: "cmp_le c x y" by (simp add: cmp_le_def)
    have "then_by c R x z" if "z \<in> set ys" for z
    proof -
      have "cmp_le c y z" using head that by (simp add: then_by_def)
      then have "cmp_le c x z" using trans that le by blast
      then show ?thesis using Rx(2) that by (simp add: then_by_def)
    qed
    moreover have "then_by c R x y" using le Rx(1) by (simp add: then_by_def)
    ultimately show ?thesis using False tail head by simp
  qed
qed

lemma sorted_js_sort:
  assumes "consistent_on c (set xs)" and "sorted_wrt R xs"
  shows "sorted_wrt (then_by c R) (js_sort c xs)"
  using assms
proof (induction xs)
  case Nil
  then show ?case by simp
next
  case (Cons x xs)
  have sub: "consistent_on c (set xs)"
    by (rule consistent_on_subset [OF Cons.prems(1)]) auto
  have "sorted_wrt (then_by c R) (js_sort c xs)"
    using Cons.IH [OF sub] Cons.prems(2) by simp
  moreover have "\<forall>y\<in>set (js_sort c xs). R x y"
    using Cons.prems(2) by (simp add: set_js_sort)
  moreover have "consistent_on c (insert x (set (js_sort c xs)))"
    using Cons.prems(1) by (simp add: set_js_sort)
  ultimately show ?case
    by (simp add: sorted_js_insert)
qed

lemma lex_before_append: "lex_before (cs @ ds) R = lex_before cs (lex_before ds R)"
  by (induction cs) simp_all

lemma sort_each_fold:
  "resolvable vm entries \<Longrightarrow>
   sort_each eng vm entries recs = Inr (foldl (\<lambda>rs c. js_sort c rs) recs (comparators_of eng vm entries))"
proof (induction entries arbitrary: recs)
  case Nil
  then show ?case by (simp add: comparators_of_def)
next
  case (Cons e entries)
  obtain u st where e: "e = (u, st)" by (cases e)
  have rest: "resolvable vm entries"
    using Cons.prems by (simp add: resolvable_def)
  show ?case
  proof (cases "st = ''none''")
    case True
    then show ?thesis using Cons.IH [OF rest] e by (simp add: comparators_of_def)
  next
    case False
    then obtain i where i: "u \<noteq> []" "map_of (index vm) u = Some i"
      using Cons.prems e by (auto simp: resolvable_def)
    then show ?thesis
      using Cons.IH [OF rest] e False by (simp add: comparators_of_def variableIndex_of_def)
  qed
qed

lemma fold_sorts_sorted:
  "\<forall>c\<in>set cs. consistent_on c (set recs) \<Longrightarrow> sorted_wrt R recs \<Longrightarrow>
   sorted_wrt (lex_before (rev cs) R) (foldl (\<lambda>rs c. js_sort c rs) recs cs)"
proof (induction cs arbitrary: recs R)
  case Nil
  then show ?case by simp
next
  case (Cons c cs)
  have s1: "sorted_wrt (then_by c R) (js_sort c recs)"
    using Cons.prems by (simp add: sorted_js_sort)
  have "\<forall>c'\<in>set cs. consistent_on c' (set (js_sort c recs))"
    using Cons.prems(1) by (simp add: set_js_sort)
  from Cons.IH [OF this s1] show ?case
    by (simp add: lex_before_append)
qed

lemma mset_fold_sorts: "mset (foldl (\<lambda>rs c. js_sort c rs) recs cs) = mset recs"
  by (induction cs arbitrary: recs) (auto simp: mset_js_sort)


section \<open>Rounding to binary64: the exponent, the range, the sign\<close>

lemma floor_log2_lower:
  assumes "0 < a"
  shows "2 powi (floor_log2 a) \<le> a"
proof -
  obtain p q where pq: "quotient_of a = (p, q)" by (cases "quotient_of a")
  have q: "0 < q" using quotient_of_denom_pos [OF pq] .
  have a: "a = of_int p / of_int q" using quotient_of_div [OF pq] .
  have p: "0 < p" using assms q unfolding a by (simp add: zero_less_divide_iff)
  have bp: "1 \<le> bitlen p" using p bitlen_eq_zero_iff [of p] bitlen_nonneg [of p] by linarith
  have bq: "0 \<le> bitlen q" by (rule bitlen_nonneg)
  have "2 ^ nat (bitlen p - 1) \<le> p" using bitlen_bounds [OF p] by simp
  then have "(of_int (2 ^ nat (bitlen p - 1)) :: rat) \<le> of_int p" by (simp only: of_int_le_iff)
  then have lp: "(2::rat) powi (bitlen p - 1) \<le> of_int p"
    using bp by (simp add: power_int_def)
  have "q < 2 ^ nat (bitlen q)" using bitlen_bounds [OF q] by simp
  then have "(of_int q :: rat) < of_int (2 ^ nat (bitlen q))" by (simp only: of_int_less_iff)
  then have uq: "of_int q \<le> (2::rat) powi (bitlen q)"
    using bq by (simp add: power_int_def)
  have "(2::rat) powi (bitlen p - bitlen q - 1) = 2 powi (bitlen p - 1) / 2 powi (bitlen q)"
    using power_int_diff [of "2::rat" "bitlen p - 1" "bitlen q"] by (simp add: algebra_simps)
  also have "\<dots> \<le> of_int p / of_int q"
    by (rule frac_le) (use lp uq q p in simp_all)
  finally have low: "(2::rat) powi (bitlen p - bitlen q - 1) \<le> a" unfolding a .
  show ?thesis
    using low by (simp add: floor_log2_def pq Let_def)
qed

lemma floor_log2_upper:
  assumes "0 < a"
  shows "a < 2 powi (floor_log2 a + 1)"
proof -
  obtain p q where pq: "quotient_of a = (p, q)" by (cases "quotient_of a")
  have q: "0 < q" using quotient_of_denom_pos [OF pq] .
  have a: "a = of_int p / of_int q" using quotient_of_div [OF pq] .
  have p: "0 < p" using assms q unfolding a by (simp add: zero_less_divide_iff)
  have bq: "1 \<le> bitlen q" using q bitlen_eq_zero_iff [of q] bitlen_nonneg [of q] by linarith
  have bp: "0 \<le> bitlen p" by (rule bitlen_nonneg)
  have "2 ^ nat (bitlen q - 1) \<le> q" using bitlen_bounds [OF q] by simp
  then have "(of_int (2 ^ nat (bitlen q - 1)) :: rat) \<le> of_int q" by (simp only: of_int_le_iff)
  then have lq: "(2::rat) powi (bitlen q - 1) \<le> of_int q"
    using bq by (simp add: power_int_def)
  have "p < 2 ^ nat (bitlen p)" using bitlen_bounds [OF p] by simp
  then have "(of_int p :: rat) < of_int (2 ^ nat (bitlen p))" by (simp only: of_int_less_iff)
  then have up: "of_int p < (2::rat) powi (bitlen p)"
    using bp by (simp add: power_int_def)
  have "of_int p / of_int q < (2::rat) powi (bitlen p) / 2 powi (bitlen q - 1)"
    by (rule frac_less) (use lq up q p in simp_all)
  also have "\<dots> = 2 powi (bitlen p - bitlen q + 1)"
    using power_int_diff [of "2::rat" "bitlen p" "bitlen q - 1"] by (simp add: algebra_simps)
  finally have up: "a < (2::rat) powi (bitlen p - bitlen q + 1)" unfolding a .
  show ?thesis
    using up by (auto simp add: floor_log2_def pq Let_def not_le)
qed


lemma ulp_pos: "0 < ulp e"
  by (simp add: ulp_def)

lemma ulp_multiple: "\<exists>n::nat. ulp e = of_nat n * 2 powi (- 1074)"
proof -
  define j where "j = (if e < - 1022 then - 1074 else e - 52)"
  have j: "- 1074 \<le> j" by (simp add: j_def)
  have "(2::rat) powi j = 2 powi (j + 1074) * 2 powi (- 1074)"
    using power_int_add [of "2::rat" "j + 1074" "- 1074"] by simp
  also have "(2::rat) powi (j + 1074) = of_nat (2 ^ nat (j + 1074))"
    using j by (simp add: power_int_def)
  finally show ?thesis
    unfolding ulp_def j_def by blast
qed

lemma round_half_even_ge_floor: "\<lfloor>m\<rfloor> \<le> round_half_even m"
  by (simp add: round_half_even_def Let_def)

lemma ulp_le:
  assumes "2 powi (- 1074) \<le> a"
  shows "ulp (floor_log2 a) \<le> a"
proof (cases "floor_log2 a < - 1022")
  case True
  then show ?thesis using assms by (simp add: ulp_def)
next
  case False
  have "0 < a" using assms zero_less_power_int [of "2::rat" "- 1074"] by linarith
  then have "2 powi (floor_log2 a) \<le> a" by (rule floor_log2_lower)
  moreover have "(2::rat) powi (floor_log2 a - 52) \<le> 2 powi (floor_log2 a)"
    by (rule power_int_increasing) simp_all
  ultimately show ?thesis using False by (simp add: ulp_def)
qed

text \<open>A number that is at least the least positive binary64 value rounds to a positive
  number.\<close>

lemma round_positive:
  assumes "2 powi (- 1074) \<le> r"
  shows "round_to_double r = PInf \<or> (\<exists>v. 0 < v \<and> round_to_double r = Fin v)"
proof -
  let ?u = "ulp (floor_log2 r)"
  have r: "0 < r" using assms zero_less_power_int [of "2::rat" "- 1074"] by linarith
  have "1 \<le> r / ?u" using ulp_le [OF assms] ulp_pos [of "floor_log2 r"] by (simp add: pos_le_divide_eq)
  then have "1 \<le> \<lfloor>r / ?u\<rfloor>" by linarith
  then have "1 \<le> round_half_even (r / ?u)"
    using round_half_even_ge_floor [of "r / ?u"] by linarith
  then have "0 < (of_int (round_half_even (r / ?u)) :: rat) * ?u"
    using ulp_pos [of "floor_log2 r"] by (simp add: zero_less_mult_iff)
  then show ?thesis
    using r by (auto simp: round_to_double_def Let_def)
qed

lemma round_to_double_minus:
  "round_to_double (- r)
   = (case round_to_double r of NaN \<Rightarrow> NaN | Fin v \<Rightarrow> Fin (- v) | PInf \<Rightarrow> NInf | NInf \<Rightarrow> PInf)"
  by (cases "r = 0"; cases "0 < r") (auto simp: round_to_double_def Let_def)

lemma round_half_even_nearest: "\<bar>of_int (round_half_even m) - m\<bar> \<le> 1 / 2"
proof -
  have "of_int \<lfloor>m\<rfloor> \<le> m" "m < of_int \<lfloor>m\<rfloor> + 1" by linarith+
  then show ?thesis
    unfolding round_half_even_def Let_def by (auto simp: abs_if; linarith)
qed

text \<open>The test of the exponent in \<open>overflows\<close> changes nothing: the rounded magnitude reaches
  \<open>2^1024\<close> only from an exponent of 1023 or more.\<close>

lemma overflows_exact:
  assumes "0 < a"
  shows "overflows (floor_log2 a) (of_int (round_half_even (a / ulp (floor_log2 a))) * ulp (floor_log2 a))
         = (2 powi 1024 \<le> of_int (round_half_even (a / ulp (floor_log2 a))) * ulp (floor_log2 a))"
proof (cases "floor_log2 a < 1023")
  case False
  then show ?thesis by (simp add: overflows_def)
next
  case True
  let ?e = "floor_log2 a"
  let ?u = "ulp ?e"
  let ?n = "round_half_even (a / ?u)"
  have u: "0 < ?u" by (rule ulp_pos)
  have "of_int ?n - a / ?u \<le> 1 / 2"
    using round_half_even_nearest [of "a / ?u"] by linarith
  then have "of_int ?n \<le> a / ?u + 1" by linarith
  then have "of_int ?n * ?u \<le> (a / ?u + 1) * ?u"
    using u by (intro mult_right_mono) simp_all
  also have "\<dots> = a + ?u" using u by (simp add: algebra_simps)
  finally have v: "of_int ?n * ?u \<le> a + ?u" .
  have "a < 2 powi (?e + 1)" using assms by (rule floor_log2_upper)
  also have "(2::rat) powi (?e + 1) \<le> 2 powi 1023"
    using True by (intro power_int_increasing) simp_all
  finally have a: "a < 2 powi 1023" .
  have "?u \<le> 2 powi 1023"
    unfolding ulp_def using True by (intro power_int_increasing) simp_all
  then have "a + ?u < 2 powi 1023 + 2 powi 1023" using a by linarith
  also have "(2::rat) powi 1023 + 2 powi 1023 = 2 powi 1024"
    using power_int_add_1 [of "2::rat" 1023] by simp
  finally have "of_int ?n * ?u < 2 powi 1024" using v by linarith
  then show ?thesis using True by (simp add: overflows_def)
qed

text \<open>A number of \<open>2^1024\<close> or more rounds to +Infinity.\<close>

lemma round_overflow:
  assumes "2 powi 1024 \<le> r"
  shows "round_to_double r = PInf"
proof -
  let ?e = "floor_log2 r"
  have r: "0 < r" using assms zero_less_power_int [of "2::rat" 1024] by linarith
  have up: "r < 2 powi (?e + 1)" using r by (rule floor_log2_upper)
  have e: "1024 \<le> ?e"
  proof (rule ccontr)
    assume "\<not> 1024 \<le> ?e"
    then have "(2::rat) powi (?e + 1) \<le> 2 powi 1024"
      by (intro power_int_increasing) simp_all
    then show False using up assms by linarith
  qed
  have u: "ulp ?e = 2 powi (?e - 52)" using e by (simp add: ulp_def)
  have "(2::rat) powi ?e = 2 powi 52 * 2 powi (?e - 52)"
    using power_int_add [of "2::rat" 52 "?e - 52"] by simp
  then have s: "(2::rat) powi ?e = of_int (2 ^ 52) * ulp ?e"
    unfolding u by (simp add: power_int_def)
  have "of_int (2 ^ 52) * ulp ?e \<le> r"
    using floor_log2_lower [OF r] unfolding s .
  then have "of_int (2 ^ 52) \<le> r / ulp ?e"
    using ulp_pos [of ?e] by (simp add: pos_le_divide_eq)
  then have "2 ^ 52 \<le> \<lfloor>r / ulp ?e\<rfloor>"
    by (simp only: le_floor_iff)
  then have "2 ^ 52 \<le> round_half_even (r / ulp ?e)"
    using round_half_even_ge_floor [of "r / ulp ?e"] by linarith
  then have "(of_int (2 ^ 52) :: rat) \<le> of_int (round_half_even (r / ulp ?e))"
    by (simp only: of_int_le_iff)
  then have "of_int (2 ^ 52) * ulp ?e \<le> of_int (round_half_even (r / ulp ?e)) * ulp ?e"
    using ulp_pos [of ?e] by (intro mult_right_mono) simp_all
  then have "2 powi ?e \<le> of_int (round_half_even (r / ulp ?e)) * ulp ?e"
    unfolding s .
  moreover have "(2::rat) powi 1024 \<le> 2 powi ?e"
    using e by (intro power_int_increasing) simp_all
  ultimately have "2 powi 1024 \<le> of_int (round_half_even (r / ulp ?e)) * ulp ?e"
    by linarith
  then have "overflows ?e (of_int (round_half_even (r / ulp ?e)) * ulp ?e)"
    using e by (simp add: overflows_def)
  then show ?thesis
    using r by (simp add: round_to_double_def Let_def)
qed


text \<open>Every binary64 value is a multiple of the least positive one.\<close>

lemma binary64_multiple:
  assumes "is_binary64 x"
  shows "\<exists>n::int. x = of_int n * 2 powi (- 1074)"
proof (cases "x = 0")
  case True
  then show ?thesis by (intro exI [of _ 0]) simp
next
  case False
  let ?u = "ulp (floor_log2 \<bar>x\<bar>)"
  obtain n :: nat where n: "?u = of_nat n * 2 powi (- 1074)"
    using ulp_multiple by blast
  define N where "N = round_half_even (\<bar>x\<bar> / ?u)"
  have "x = of_int N * ?u \<or> x = - (of_int N * ?u)"
    using assms False
    by (auto simp: is_binary64_def round_to_double_def Let_def N_def split: if_splits)
  then have "x = of_int (N * int n) * 2 powi (- 1074) \<or> x = of_int (- (N * int n)) * 2 powi (- 1074)"
    unfolding n by simp
  then show ?thesis by blast
qed

lemma binary64_difference:
  assumes "is_binary64 x" "is_binary64 y" "y < x"
  shows "2 powi (- 1074) \<le> x - y"
proof -
  obtain n m :: int where x: "x = of_int n * 2 powi (- 1074)" and y: "y = of_int m * 2 powi (- 1074)"
    using assms binary64_multiple by blast
  have d: "x - y = of_int (n - m) * 2 powi (- 1074)"
    by (simp add: x y algebra_simps)
  have "0 < of_int (n - m) * (2::rat) powi (- 1074)" using assms(3) d by simp
  then have "0 < (of_int (n - m) :: rat)"
    using zero_less_power_int [of "2::rat" "- 1074"] by (simp add: zero_less_mult_iff)
  then have "1 \<le> n - m" by simp
  then have "(1::rat) \<le> of_int (n - m)" by (simp only: of_int_1_le_iff)
  then have "1 * 2 powi (- 1074) \<le> (of_int (n - m) :: rat) * 2 powi (- 1074)"
    by (rule mult_right_mono) simp
  then show ?thesis unfolding d by simp
qed

text \<open>The rounded difference of two binary64 values has the sign of the exact difference.\<close>

lemma round_difference_sign:
  assumes "is_binary64 x" "is_binary64 y"
  shows "num_less (Fin 0) (round_to_double (x - y)) = (y < x)"
    and "num_less (round_to_double (x - y)) (Fin 0) = (x < y)"
proof -
  consider "y < x" | "x = y" | "x < y" by linarith
  then have "num_less (Fin 0) (round_to_double (x - y)) = (y < x)
             \<and> num_less (round_to_double (x - y)) (Fin 0) = (x < y)"
  proof cases
    case 1
    then show ?thesis
      using round_positive [OF binary64_difference [OF assms 1]]
      by (auto simp: num_less_def)
  next
    case 2
    then show ?thesis by (simp add: round_to_double_def num_less_def)
  next
    case 3
    have m: "x - y = - (y - x)" by simp
    show ?thesis
      using 3 round_positive [OF binary64_difference [OF assms(2,1) 3]]
      unfolding m round_to_double_minus
      by (auto simp: num_less_def)
  qed
  then show "num_less (Fin 0) (round_to_double (x - y)) = (y < x)"
    and "num_less (round_to_double (x - y)) (Fin 0) = (x < y)"
    by simp_all
qed

lemma round_to_double_small:
  "round_to_double 0 = Fin 0" "round_to_double 1 = Fin 1" "round_to_double (- 1) = Fin (- 1)"
  by code_simp+

lemma binary64_small: "is_binary64 0" "is_binary64 1" "is_binary64 2"
  by code_simp+

section \<open>Numbers never look like dates\<close>

lemma first_some_all_None: "(\<And>x. x \<in> set xs \<Longrightarrow> x = None) \<Longrightarrow> first_some xs = None"
  by (induction xs rule: first_some.induct) auto

lemma match_here_missing_literal:
  assumes "l \<notin> set s"
  shows "match_here ((Lit l, Suc lo, hi) # p) s = None"
proof -
  have "takeWhile (in_class (Lit l)) s = []"
    using assms by (cases s) auto
  then show ?thesis
    by (cases hi) (simp_all add: match_here.simps Let_def)
qed

lemma eu_pattern_needs_slash:
  assumes "CHR ''/'' \<notin> set s"
  shows "match_here euDateTimeRegExp s = None"
proof -
  have inner: "match_here ((Lit CHR ''/'', Suc 0, Some (Suc 0)) # p) (drop k s) = None" for k p
    using match_here_missing_literal [of "CHR ''/''" "drop k s" 0 "Some (Suc 0)" p] assms
    by (auto dest: in_set_dropD)
  show ?thesis
    unfolding euDateTimeRegExp_def
    by (subst match_here.simps(2), unfold Let_def, rule first_some_all_None) (auto simp: inner)
qed

lemma search_eu_pattern_needs_slash:
  "CHR ''/'' \<notin> set s \<Longrightarrow> search euDateTimeRegExp s = None"
  by (induction s) (simp_all add: eu_pattern_needs_slash)

lemma digit_char_in_digits: "digit_char d \<in> set ''0123456789''"
proof -
  have "d mod 10 < length ''0123456789''" by simp
  then show ?thesis unfolding digit_char_def by (rule nth_mem)
qed

lemma string_of_nat_chars: "set (string_of_nat n) \<subseteq> set ''0123456789''"
proof (induction n rule: string_of_nat.induct)
  case (1 n)
  show ?case
  proof (cases "n < 10")
    case True
    then show ?thesis
      using digit_char_in_digits [of n] by (subst string_of_nat.simps) simp
  next
    case False
    then show ?thesis
      using 1 digit_char_in_digits [of "n mod 10"] by (subst string_of_nat.simps) simp
  qed
qed

lemma frac_digits_chars: "set (frac_digits k f) \<subseteq> set ''0123456789''"
proof (induction k arbitrary: f)
  case 0
  then show ?case by simp
next
  case (Suc k)
  show ?case
    using Suc [of "f * 10 - of_int \<lfloor>f * 10\<rfloor>"] digit_char_in_digits [of "nat \<lfloor>f * 10\<rfloor>"]
    by (cases "f = 0") simp_all
qed

lemma pos_rat_to_string_no_slash: "CHR ''/'' \<notin> set (pos_rat_to_string r)"
  using string_of_nat_chars [of "nat \<lfloor>r\<rfloor>"] frac_digits_chars [of 20 "r - of_nat (nat \<lfloor>r\<rfloor>)"]
  by (auto simp: pos_rat_to_string_def Let_def)

lemma number_to_string_no_slash: "CHR ''/'' \<notin> set (number_to_string n)"
  using pos_rat_to_string_no_slash by (cases n) (auto simp: number_to_string_def)

lemma non_string_never_eu_date:
  "(\<And>s. v \<noteq> JStr s) \<Longrightarrow> \<not> regex_test euDateTimeRegExp (js_String v)"
proof -
  assume ns: "\<And>s. v \<noteq> JStr s"
  have "CHR ''/'' \<notin> set (js_String v)"
    using ns number_to_string_no_slash by (cases v) (auto simp: js_String_def)
  then show ?thesis
    by (simp add: regex_test_def search_eu_pattern_needs_slash)
qed

lemma compare_values_numbers:
  "compare_values eng k (JNum (Fin x)) (JNum (Fin y)) = num_scale k (round_to_double (x - y))"
proof -
  have "\<not> regex_test euDateTimeRegExp (js_String (JNum (Fin x)))"
    by (rule non_string_never_eu_date) simp
  then show ?thesis
    by (simp add: compare_values_def Let_def is_numeric_def js_isNaN_def js_parseFloat_def
        js_isFinite_def js_ToNumber_def num_sub_def)
qed

lemma num_scale_sign:
  "num_less (Fin 0) (num_scale 1 v) = num_less (Fin 0) v"
  "num_less (Fin 0) (num_scale (- 1) v) = num_less v (Fin 0)"
  by (cases v; simp add: num_scale_def num_less_def)+

text \<open>On a column of binary64 numbers the comparison function is consistent.\<close>

lemma numeric_column_consistent:
  assumes "\<forall>r\<in>S. \<exists>x. cell r i = JNum (Fin x) \<and> is_binary64 x"
  shows "consistent_on (compareDataPoints eng (order_of st) i) S"
proof -
  have k: "order_of st = 1 \<or> order_of st = - 1"
    by (simp add: order_of_def)
  have le: "cmp_le (compareDataPoints eng (order_of st) i) a b
            = (if order_of st = 1 then x \<le> y else y \<le> x)"
    if "cell a i = JNum (Fin x)" "cell b i = JNum (Fin y)" "is_binary64 x" "is_binary64 y"
    for a b x y
    using that k
    by (auto simp: cmp_le_def compareDataPoints_def compare_values_numbers num_scale_sign
        round_difference_sign)
  show ?thesis
    unfolding consistent_on_def
  proof (intro conjI ballI impI)
    fix a b assume "a \<in> S" "b \<in> S"
    then obtain x y where "cell a i = JNum (Fin x)" "cell b i = JNum (Fin y)"
        "is_binary64 x" "is_binary64 y"
      using assms by blast
    then show "cmp_le (compareDataPoints eng (order_of st) i) a b
               \<or> cmp_le (compareDataPoints eng (order_of st) i) b a"
      by (auto simp: le)
  next
    fix a b d assume "a \<in> S" "b \<in> S" "d \<in> S"
      and h: "cmp_le (compareDataPoints eng (order_of st) i) a b
              \<and> cmp_le (compareDataPoints eng (order_of st) i) b d"
    then obtain x y z where c: "cell a i = JNum (Fin x)" "cell b i = JNum (Fin y)"
        "cell d i = JNum (Fin z)" "is_binary64 x" "is_binary64 y" "is_binary64 z"
      using assms by blast
    then show "cmp_le (compareDataPoints eng (order_of st) i) a d"
      using h by (auto simp: le split: if_splits)
  qed
qed


section \<open>Sorting: right-to-left priority\<close>

lemma comparators_of_ordinals:
  assumes "map (map_of (index vm)) (map fst entries) = map Some (map fst (enumerate k entries))"
  shows "comparators_of eng vm entries
         = map (\<lambda>(j, st). compareDataPoints eng (order_of st) j)
             (filter (\<lambda>(j, st). st \<noteq> ''none'') (enumerate k (map snd entries)))"
  using assms
proof (induction entries arbitrary: k)
  case Nil
  then show ?case by (simp add: comparators_of_def)
next
  case (Cons e entries)
  obtain u st where e: "e = (u, st)" by (cases e)
  have hd: "map_of (index vm) u = Some k"
    and tl: "map (map_of (index vm)) (map fst entries) = map Some (map fst (enumerate (Suc k) entries))"
    using Cons.prems e by simp_all
  have "comparators_of eng vm (e # entries)
        = (if st \<noteq> ''none'' then [compareDataPoints eng (order_of st) k] else [])
          @ comparators_of eng vm entries"
    using hd e by (simp add: comparators_of_def)
  then show ?case
    using Cons.IH [OF tl] e by simp
qed

lemma comparators_in_ordinal_order:
  assumes "in_ordinal_order vm"
  shows "comparators_of eng vm (sorting vm)
         = map (\<lambda>(j, st). compareDataPoints eng (order_of st) j) (sorted_columns vm)"
proof -
  have "map (map_of (index vm)) (map fst (sorting vm))
        = map Some (map fst (enumerate 0 (sorting vm)))"
    using assms by (simp add: in_ordinal_order_def)
  then show ?thesis
    using comparators_of_ordinals [of vm "sorting vm" 0 eng]
    by (simp add: sorted_columns_def enumerate_eq_zip)
qed

lemma map_of_zip_nth:
  assumes "distinct us" "j < length us"
  shows "map_of (zip us [0 ..< length us]) (us ! j) = Some j"
proof -
  have "map_of (zip us [0 ..< length us]) (us ! j) = Some ([0 ..< length us] ! j)"
    using assms by (intro map_of_zip_nth) simp_all
  then show ?thesis using assms(2) by simp
qed

lemma registry_in_ordinal_order:
  assumes "distinct us" "index vm = zip us [0 ..< length us]" "map fst (sorting vm) = us"
  shows "in_ordinal_order vm"
proof -
  have l: "length (sorting vm) = length us"
    using assms(3) by (metis length_map)
  have "map (map_of (index vm)) (map fst (sorting vm)) = map Some [0 ..< length us]"
    unfolding assms(3)
  proof (rule nth_equalityI)
    show "length (map (map_of (index vm)) us) = length (map Some [0 ..< length us])" by simp
  next
    fix j assume "j < length (map (map_of (index vm)) us)"
    then have "j < length us" by simp
    then show "map (map_of (index vm)) us ! j = map Some [0 ..< length us] ! j"
      using map_of_zip_nth [OF assms(1)] assms(2) by simp
  qed
  then show ?thesis
    using l by (simp add: in_ordinal_order_def)
qed

lemma update_keeps_keys: "k \<in> fst ` set al \<Longrightarrow> map fst (AList.update k v al) = map fst al"
  by (induction al) auto

lemma sorting_set_keeps_order:
  assumes "in_ordinal_order vm" "u \<in> fst ` set (sorting vm)"
  shows "in_ordinal_order (vm\<lparr>sorting := AList.update u st (sorting vm)\<rparr>)"
proof -
  have k: "map fst (AList.update u st (sorting vm)) = map fst (sorting vm)"
    by (rule update_keeps_keys [OF assms(2)])
  have "map (map_of (index vm)) (map fst (AList.update u st (sorting vm)))
        = map (map_of (index vm)) (map fst (sorting vm))"
    using k by simp
  moreover have "length (AList.update u st (sorting vm)) = length (sorting vm)"
    using k by (metis length_map)
  ultimately show ?thesis
    using assms(1) by (simp add: in_ordinal_order_def)
qed


lemma columns_AB_ascending_maps:
  "columns_AB_ascending =
     \<lparr>uids = [(''var_uid_0'', ''A''), (''var_uid_1'', ''B'')],
      reverseUids = [(''A'', ''var_uid_0''), (''B'', ''var_uid_1'')],
      index = [(''var_uid_0'', 0), (''var_uid_1'', 1)],
      reverseIndex = [(0, ''var_uid_0''), (1, ''var_uid_1'')],
      types = [(''var_uid_0'', ''text''), (''var_uid_1'', ''text'')],
      sorting = [(''var_uid_0'', ''ascending''), (''var_uid_1'', ''ascending'')],
      filtering = [(''var_uid_0'', []), (''var_uid_1'', [])],
      defaultOrderMap = [(''var_uid_0'', ''none''), (''var_uid_1'', ''none'')]\<rparr>"
  by code_simp

lemma sort_rows_AB:
  "sortRecords eng columns_AB_ascending rows_AB
   = Inr [[num_cell 1, num_cell 1], [num_cell 2, num_cell 1], [num_cell 1, num_cell 2]]"
  by (simp add: columns_AB_ascending_maps sortRecords_def variableIndex_of_def order_of_def
      compareDataPoints_def cell_def rows_AB_def num_cell_def compare_values_numbers num_less_def
      num_scale_def round_to_double_small)

lemma sortRecords_general:
  assumes "resolvable vm (sorting vm)"
  shows "sortRecords eng vm records
         = Inr (foldl (\<lambda>rs c. js_sort c rs) records (comparators_of eng vm (sorting vm)))"
  using sort_each_fold [OF assms] by (simp add: sortRecords_def)

text \<open>
  Claim C1. In the example of two columns A and B, both ascending, the rows (1,2), (1,1),
  (2,1) come out as (1,1), (2,1), (1,2): ordered by B, and by A among the rows that tie on B.
  In general, when every sorted column of the sorting map names a registered column,
  \<open>sortRecords\<close> returns the rows after one stable sort per sorted column, taken in the order
  of the map, which for a map in the order of registration is the increasing order of the
  column ordinals; the result is a rearrangement
  of the input; and when each of these comparison functions is consistent on the rows, the
  result is ordered lexicographically with the last sorted column as the dominant key, each
  earlier column breaking the ties of the later ones, and the input order (any relation \<open>R\<close>
  under which the input is sorted) breaking the ties that remain.
\<close>

theorem sortRecords_right_to_left_priority:
  "sortRecords eng columns_AB_ascending rows_AB
     = Inr [[num_cell 1, num_cell 1], [num_cell 2, num_cell 1], [num_cell 1, num_cell 2]]
   \<and> (resolvable vm (sorting vm) \<longrightarrow>
        (\<exists>out. sortRecords eng vm records = Inr out
           \<and> out = foldl (\<lambda>rs c. js_sort c rs) records (comparators_of eng vm (sorting vm))
           \<and> mset out = mset records
           \<and> ((\<forall>c\<in>set (comparators_of eng vm (sorting vm)). consistent_on c (set records))
                \<and> sorted_wrt R records
               \<longrightarrow> sorted_wrt (lex_before (rev (comparators_of eng vm (sorting vm))) R) out)))
   \<and> (in_ordinal_order vm \<longrightarrow>
        comparators_of eng vm (sorting vm)
        = map (\<lambda>(j, sortState). compareDataPoints eng (order_of sortState) j) (sorted_columns vm))"
proof (intro conjI impI)
  show "sortRecords eng columns_AB_ascending rows_AB
        = Inr [[num_cell 1, num_cell 1], [num_cell 2, num_cell 1], [num_cell 1, num_cell 2]]"
    by (rule sort_rows_AB)
next
  assume r: "resolvable vm (sorting vm)"
  let ?cs = "comparators_of eng vm (sorting vm)"
  let ?out = "foldl (\<lambda>rs c. js_sort c rs) records ?cs"
  have "sortRecords eng vm records = Inr ?out"
    by (rule sortRecords_general [OF r])
  moreover have "mset ?out = mset records"
    by (rule mset_fold_sorts)
  moreover have "sorted_wrt (lex_before (rev ?cs) R) ?out"
    if "(\<forall>c\<in>set ?cs. consistent_on c (set records)) \<and> sorted_wrt R records"
    using that fold_sorts_sorted [of ?cs records R] by simp
  ultimately show "\<exists>out. sortRecords eng vm records = Inr out
           \<and> out = ?out \<and> mset out = mset records
           \<and> ((\<forall>c\<in>set ?cs. consistent_on c (set records)) \<and> sorted_wrt R records
               \<longrightarrow> sorted_wrt (lex_before (rev ?cs) R) out)"
    by blast
next
  assume "in_ordinal_order vm"
  then show "comparators_of eng vm (sorting vm)
        = map (\<lambda>(j, sortState). compareDataPoints eng (order_of sortState) j) (sorted_columns vm)"
    by (rule comparators_in_ordinal_order)
qed

theorem sortRecords_right_to_left_priority_witness:
  "resolvable columns_AB_ascending (sorting columns_AB_ascending)
   \<and> in_ordinal_order columns_AB_ascending
   \<and> comparators_of strict_engine columns_AB_ascending (sorting columns_AB_ascending)
       = [compareDataPoints strict_engine (order_of ''ascending'') 0,
          compareDataPoints strict_engine (order_of ''ascending'') 1]
   \<and> list_all (\<lambda>c. consistent_on c (set rows_AB))
        (comparators_of strict_engine columns_AB_ascending (sorting columns_AB_ascending))
   \<and> sorted_wrt (\<lambda>a b. True) rows_AB
   \<and> sortRecords strict_engine columns_AB_ascending rows_AB
       = Inr [[num_cell 1, num_cell 1], [num_cell 2, num_cell 1], [num_cell 1, num_cell 2]]
   \<and> sorted_wrt
        (lex_before (rev (comparators_of strict_engine columns_AB_ascending
                            (sorting columns_AB_ascending))) (\<lambda>a b. True))
        [[num_cell 1, num_cell 1], [num_cell 2, num_cell 1], [num_cell 1, num_cell 2]]"
proof -
  let ?vm = columns_AB_ascending
  let ?cs = "comparators_of strict_engine ?vm (sorting ?vm)"
  have r: "resolvable ?vm (sorting ?vm)"
    by (simp add: columns_AB_ascending_maps resolvable_def)
  have o: "in_ordinal_order ?vm"
    by (simp add: columns_AB_ascending_maps in_ordinal_order_def upt_rec)
  have sc: "sorted_columns ?vm = [(0, ''ascending''), (1, ''ascending'')]"
    by (simp add: columns_AB_ascending_maps sorted_columns_def upt_rec)
  have cs: "?cs = [compareDataPoints strict_engine (order_of ''ascending'') 0,
                   compareDataPoints strict_engine (order_of ''ascending'') 1]"
    using sortRecords_right_to_left_priority [of strict_engine ?vm rows_AB "\<lambda>a b. True"] o
    by (simp add: sc)
  have c0: "consistent_on (compareDataPoints strict_engine (order_of ''ascending'') 0) (set rows_AB)"
    by (rule numeric_column_consistent) (simp add: rows_AB_def num_cell_def cell_def binary64_small)
  have c1: "consistent_on (compareDataPoints strict_engine (order_of ''ascending'') 1) (set rows_AB)"
    by (rule numeric_column_consistent) (simp add: rows_AB_def num_cell_def cell_def binary64_small)
  have c: "\<forall>c\<in>set ?cs. consistent_on c (set rows_AB)"
    using c0 c1 by (simp add: cs)
  have s: "sorted_wrt (\<lambda>a b. True) rows_AB"
    by (simp add: rows_AB_def)
  obtain out where out: "sortRecords strict_engine ?vm rows_AB = Inr out"
      "(\<forall>c\<in>set ?cs. consistent_on c (set rows_AB)) \<and> sorted_wrt (\<lambda>a b. True) rows_AB
       \<longrightarrow> sorted_wrt (lex_before (rev ?cs) (\<lambda>a b. True)) out"
    using sortRecords_right_to_left_priority [of strict_engine ?vm rows_AB "\<lambda>a b. True"] r
    by blast
  have ex: "sortRecords strict_engine ?vm rows_AB
            = Inr [[num_cell 1, num_cell 1], [num_cell 2, num_cell 1], [num_cell 1, num_cell 2]]"
    using sortRecords_right_to_left_priority [of strict_engine ?vm rows_AB "\<lambda>a b. True"] by blast
  with out(1) have "out = [[num_cell 1, num_cell 1], [num_cell 2, num_cell 1], [num_cell 1, num_cell 2]]"
    by simp
  with out(2) c s have "sorted_wrt (lex_before (rev ?cs) (\<lambda>a b. True))
        [[num_cell 1, num_cell 1], [num_cell 2, num_cell 1], [num_cell 1, num_cell 2]]"
    by blast
  with r c s ex o cs show ?thesis
    by (simp add: list_all_iff)
qed

section \<open>Filtering\<close>

lemma starts_with_prefix: "starts_with s p = prefix p s"
  by (induction s p rule: starts_with.induct) auto

lemma str_includes_sublist: "str_includes s p = sublist p s"
proof (induction s)
  case Nil
  then show ?case by simp
next
  case (Cons c cs)
  show ?case
  proof (cases p)
    case Nil
    then show ?thesis by simp
  next
    case (Cons q qs)
    then show ?thesis
      using Cons.IH by (simp add: sublist_Cons_right starts_with_prefix)
  qed
qed

lemma str_includes_empty: "str_includes s []"
  by (simp add: str_includes_sublist)






section \<open>Removing records\<close>

text \<open>
  Claim C4, at its input: ten rows, no sort state, no filter text, first index 2 and last
  index 4. The code computes the delete count \<open>4 - 2 = 2\<close>, removes the rows 2 and 3 only, and
  the recomputed view has the eight rows 0, 1, 4, 5, 6, 7, 8, 9.
\<close>

theorem removeDataPoints_keeps_last_index:
  "removeDataPoints strict_engine 2 (Some 4) ten_row_collection
   = (Inr (), ten_row_collection
                \<lparr>dataSet := map (\<lambda>i. [num_cell i]) [0, 1, 4, 5, 6, 7, 8, 9],
                 temporaryDataSet := map (\<lambda>i. [num_cell i]) [0, 1, 4, 5, 6, 7, 8, 9]\<rparr>)"
  by code_simp

section \<open>Normalisation of a data point\<close>

text \<open>
  Claim C6. \<open>_parseDataPoint\<close> treats a boolean as its string \<open>true\<close> or \<open>false\<close>. With the value
  so stringified: a falsy value (missing, \<open>null\<close>, 0, NaN, the empty string) gives 0 for the
  type \<open>number\<close>, the string \<open>false\<close> for the type \<open>boolean\<close> and the string \<open>-\<close> for every other
  type; a truthy value of a type other than \<open>eu_date\<close> is returned as it is.
\<close>

theorem parseDataPoint_defaults:
  "parseDataPoint (JBool b) ty = parseDataPoint (JStr (if b then ''true'' else ''false'')) ty
   \<and> (\<not> truthy (stringified v) \<longrightarrow>
        parseDataPoint v ty = (if ty = Some ''number'' then JNum (Fin 0)
                               else if ty = Some ''boolean'' then JStr ''false'' else JStr ''-''))
   \<and> (truthy (stringified v) \<and> ty \<noteq> Some ''eu_date'' \<longrightarrow> parseDataPoint v ty = stringified v)"
  by (cases v; auto simp add: parseDataPoint_def stringified_def truthy_def Let_def split: option.splits)

theorem parseDataPoint_defaults_witness:
  "\<not> truthy (stringified JUndefined)
   \<and> parseDataPoint JUndefined (Some ''number'') = JNum (Fin 0)
   \<and> parseDataPoint JUndefined (Some ''boolean'') = JStr ''false''
   \<and> parseDataPoint JUndefined (Some ''text'') = JStr ''-''
   \<and> truthy (stringified (JNum (Fin 7))) \<and> Some ''number'' \<noteq> Some ''eu_date''
   \<and> parseDataPoint (JNum (Fin 7)) (Some ''number'') = JNum (Fin 7)
   \<and> parseDataPoint (JBool False) (Some ''number'') = JStr ''false''"
proof -
  note t = parseDataPoint_defaults [THEN conjunct2]
  have u: "\<not> truthy (stringified JUndefined)"
    by (simp add: stringified_def truthy_def)
  have n: "truthy (stringified (JNum (Fin 7)))" "stringified (JNum (Fin 7)) = JNum (Fin 7)"
    by (simp_all add: stringified_def truthy_def)
  have b: "truthy (stringified (JBool False))" "stringified (JBool False) = JStr ''false''"
    by (simp_all add: stringified_def truthy_def)
  have "parseDataPoint JUndefined (Some ''number'') = JNum (Fin 0)"
    using t [of JUndefined "Some ''number''"] u by simp
  moreover have "parseDataPoint JUndefined (Some ''boolean'') = JStr ''false''"
    using t [of JUndefined "Some ''boolean''"] u by simp
  moreover have "parseDataPoint JUndefined (Some ''text'') = JStr ''-''"
    using t [of JUndefined "Some ''text''"] u by simp
  moreover have "parseDataPoint (JNum (Fin 7)) (Some ''number'') = JNum (Fin 7)"
    using t [of "JNum (Fin 7)" "Some ''number''"] n by simp
  moreover have "parseDataPoint (JBool False) (Some ''number'') = JStr ''false''"
    using t [of "JBool False" "Some ''number''"] b by simp
  ultimately show ?thesis
    using u n(1) by simp
qed

section \<open>Removing a variable\<close>

text \<open>
  Claim C8, at a collection of one column and ten rows: \<open>removeVariable\<close> throws at its second
  statement, \<open>this.variables.splice(index, 1)\<close>, since \<open>this.variables\<close> is a plain object; no
  cell is removed and both data sets stay as they were.
\<close>

theorem removeVariable_throws:
  "removeVariable ''var_uid_0'' ten_row_collection
   = (Inl (TypeError ''this.variables.splice is not a function''), ten_row_collection)"
  by (simp add: removeVariable_def lookup_function_def variables_properties_def)

text \<open>The loops that follow the throwing statement take rows out of the data set, one at
  each turn, until the counter meets the shrinking length; they do not touch the cells.\<close>

lemma removeVariable_loops_remove_rows:
  "splice_loop 0 (Some 0) ten_rows = map (\<lambda>i. [num_cell i]) [5, 6, 7, 8, 9]"
  by code_simp

section \<open>Loading a data set\<close>

text \<open>
  Claim C10. For every argument, \<open>loadDataSet\<close> throws the \<open>TypeError\<close> of the call
  \<open>this._resetData()\<close>, a method the class does not define, and the collection (the data set,
  the temporary data set and every map) is left as it was.
\<close>

theorem loadDataSet_always_throws:
  "loadDataSet rawData dc = (Inl (TypeError ''this._resetData is not a function''), dc)"
  by (simp add: loadDataSet_def lookup_function_def DataCollection_methods_def)

section \<open>The input array of sortRecords and filterRecords\<close>

lemma array_at_simps [simp]: "array_at h (Inl e) = Inl e" "array_at h (Inr a) = Inr (h ! a)"
  by (simp_all add: array_at_def)

lemma sort_each_in_store_frame:
  assumes "a < length h"
  shows "case sort_each_in_store eng vm entries a h of
           (res, h') \<Rightarrow>
             length h' = length h
             \<and> (\<forall>b. b \<noteq> a \<longrightarrow> h' ! b = h ! b)
             \<and> array_at h' res = sort_each eng vm entries (h ! a)
             \<and> (\<forall>c. res = Inr c \<longrightarrow> c = a)"
  using assms
proof (induction entries arbitrary: h)
  case Nil
  then show ?case by simp
next
  case (Cons e entries)
  obtain u st where e: "e = (u, st)" by (cases e)
  show ?case
  proof (cases "st \<noteq> ''none'' \<and> (\<exists>i. variableIndex_of vm u = Some i \<and> u \<noteq> [] \<and> - 1 < i)")
    case True
    then obtain i where i: "st \<noteq> ''none''" "variableIndex_of vm u = Some i" "u \<noteq> []" "- 1 < i"
      by blast
    let ?h = "h[a := js_sort (compareDataPoints eng (order_of st) (nat i)) (h ! a)]"
    have "a < length ?h" using Cons.prems by simp
    from Cons.IH [OF this] show ?thesis
      using e i Cons.prems by (auto split: prod.splits)
  next
    case False
    then show ?thesis
      using e Cons by (auto split: option.splits)
  qed
qed

lemma sortRecords_in_store_frame:
  assumes "records < length h"
  shows "case sortRecords_in_store eng vm records h of
           (res, h') \<Rightarrow>
             take (length h) h' = h
             \<and> array_at h' res = sortRecords eng vm (h ! records)
             \<and> (\<forall>c. res = Inr c \<longrightarrow> length h \<le> c \<and> c < length h')"
proof -
  let ?h1 = "h @ [h ! records]"
  have a: "length h < length ?h1" by simp
  obtain res h' where r: "sort_each_in_store eng vm (sorting vm) (length h) ?h1 = (res, h')"
    by (cases "sort_each_in_store eng vm (sorting vm) (length h) ?h1")
  have f: "length h' = length ?h1" "\<forall>b. b \<noteq> length h \<longrightarrow> h' ! b = ?h1 ! b"
      "array_at h' res = sort_each eng vm (sorting vm) (?h1 ! length h)"
      "\<forall>c. res = Inr c \<longrightarrow> c = length h"
    using sort_each_in_store_frame [OF a, of eng vm "sorting vm"] r by auto
  have "take (length h) h' = h"
  proof (rule nth_equalityI)
    show "length (take (length h) h') = length h" using f(1) by simp
  next
    fix i assume "i < length (take (length h) h')"
    then have "i < length h" by simp
    then show "take (length h) h' ! i = h ! i"
      using f(2) by (simp add: nth_append)
  qed
  then show ?thesis
    using r f by (auto simp: sortRecords_in_store_def alloc_def sortRecords_def)
qed

lemma filter_each_in_store_frame:
  assumes "a < length h"
  shows "case filter_each_in_store vm entries a h of
           (res, h') \<Rightarrow>
             take (length h) h' = h
             \<and> array_at h' res = filter_each vm entries (h ! a)
             \<and> (\<forall>c. res = Inr c \<longrightarrow> (c = a \<or> length h \<le> c) \<and> c < length h')"
  using assms
proof (induction entries arbitrary: a h)
  case Nil
  then show ?case by simp
next
  case (Cons e entries)
  obtain u v where e: "e = (u, v)" by (cases e)
  show ?case
  proof (cases "filter_rows (variableIndex_of vm u) (toLowerCase v) (h ! a)")
    case (Inl err)
    then show ?thesis using e by simp
  next
    case (Inr kept)
    let ?h = "h @ [kept]"
    have "length h < length ?h" by simp
    then have IH: "case filter_each_in_store vm entries (length h) ?h of
           (res, h') \<Rightarrow>
             take (length ?h) h' = ?h
             \<and> array_at h' res = filter_each vm entries (?h ! length h)
             \<and> (\<forall>c. res = Inr c \<longrightarrow> (c = length h \<or> length ?h \<le> c) \<and> c < length h')"
      by (rule Cons.IH)
    obtain res h' where r: "filter_each_in_store vm entries (length h) ?h = (res, h')"
      by (cases "filter_each_in_store vm entries (length h) ?h")
    have f: "take (length ?h) h' = ?h"
        "array_at h' res = filter_each vm entries (?h ! length h)"
        "\<forall>c. res = Inr c \<longrightarrow> (c = length h \<or> length ?h \<le> c) \<and> c < length h'"
      using IH r by simp_all
    have "take (length h) (take (length ?h) h') = take (length h) ?h"
      using f(1) by simp
    then have "take (length h) h' = h"
      by (simp add: min_def)
    then show ?thesis
      using e Inr r f by (auto simp: alloc_def)
  qed
qed


lemma filterRecords_in_store_frame:
  assumes "records < length h"
  shows "case filterRecords_in_store vm records h of
           (res, h') \<Rightarrow>
             take (length h) h' = h
             \<and> array_at h' res = filterRecords vm (h ! records)
             \<and> (\<forall>c. res = Inr c \<longrightarrow> length h \<le> c \<and> c < length h')"
proof -
  let ?h1 = "h @ [h ! records]"
  have a: "length h < length ?h1" by simp
  obtain res h' where r: "filter_each_in_store vm (filtering vm) (length h) ?h1 = (res, h')"
    by (cases "filter_each_in_store vm (filtering vm) (length h) ?h1")
  have f: "take (length ?h1) h' = ?h1"
      "array_at h' res = filter_each vm (filtering vm) (?h1 ! length h)"
      "\<forall>c. res = Inr c \<longrightarrow> (c = length h \<or> length ?h1 \<le> c) \<and> c < length h'"
    using filter_each_in_store_frame [OF a, of vm "filtering vm"] r by simp_all
  have "take (length h) (take (length ?h1) h') = take (length h) ?h1"
    using f(1) by simp
  then have "take (length h) h' = h"
    by (simp add: min_def)
  then show ?thesis
    using r f by (auto simp: filterRecords_in_store_def alloc_def filterRecords_def)
qed

text \<open>
  Claim C9. For every store, every address \<open>records\<close> of an array in it and every registry:
  after \<open>sortRecords\<close> or \<open>filterRecords\<close>, whether it returns or throws, the array at \<open>records\<close>
  and every other array that was in the store are unchanged (same rows in the same order);
  a returned address is a new one, and the array there is what the method computes from the
  input array.
\<close>

theorem sort_and_filter_leave_input:
  assumes "records < length h"
  shows "(\<forall>res h'. sortRecords_in_store eng vm records h = (res, h') \<longrightarrow>
            h' ! records = h ! records \<and> take (length h) h' = h
            \<and> array_at h' res = sortRecords eng vm (h ! records)
            \<and> (\<forall>c. res = Inr c \<longrightarrow> c \<noteq> records \<and> length h \<le> c \<and> c < length h'))
       \<and> (\<forall>res h'. filterRecords_in_store vm records h = (res, h') \<longrightarrow>
            h' ! records = h ! records \<and> take (length h) h' = h
            \<and> array_at h' res = filterRecords vm (h ! records)
            \<and> (\<forall>c. res = Inr c \<longrightarrow> c \<noteq> records \<and> length h \<le> c \<and> c < length h'))"
proof (intro conjI allI impI)
  fix res h' assume r: "sortRecords_in_store eng vm records h = (res, h')"
  have f: "take (length h) h' = h" "array_at h' res = sortRecords eng vm (h ! records)"
      "\<forall>c. res = Inr c \<longrightarrow> length h \<le> c \<and> c < length h'"
    using sortRecords_in_store_frame [OF assms, of eng vm] r by simp_all
  show "take (length h) h' = h" by (rule f(1))
  show "array_at h' res = sortRecords eng vm (h ! records)" by (rule f(2))
  have "take (length h) h' ! records = h' ! records"
    using assms by simp
  then show "h' ! records = h ! records" using f(1) by simp
  fix c assume "res = Inr c"
  then show "c \<noteq> records" "length h \<le> c" "c < length h'" using f(3) assms by auto
next
  fix res h' assume r: "filterRecords_in_store vm records h = (res, h')"
  have f: "take (length h) h' = h" "array_at h' res = filterRecords vm (h ! records)"
      "\<forall>c. res = Inr c \<longrightarrow> length h \<le> c \<and> c < length h'"
    using filterRecords_in_store_frame [OF assms, of vm] r by simp_all
  show "take (length h) h' = h" by (rule f(1))
  show "array_at h' res = filterRecords vm (h ! records)" by (rule f(2))
  have "take (length h) h' ! records = h' ! records"
    using assms by simp
  then show "h' ! records = h ! records" using f(1) by simp
  fix c assume "res = Inr c"
  then show "c \<noteq> records" "length h \<le> c" "c < length h'" using f(3) assms by auto
qed


theorem sort_and_filter_leave_input_witness:
  "(0::nat) < length [rows_AB]
   \<and> sortRecords_in_store strict_engine columns_AB_ascending 0 [rows_AB]
       = (Inr 1, [rows_AB, [[num_cell 1, num_cell 1], [num_cell 2, num_cell 1], [num_cell 1, num_cell 2]]])
   \<and> [rows_AB, [[num_cell 1, num_cell 1], [num_cell 2, num_cell 1], [num_cell 1, num_cell 2]]] ! 0
       = [rows_AB] ! 0
   \<and> filterRecords_in_store columns_XY_filtered 0 [rows_AB]
       = (Inr 3, [rows_AB, rows_AB, [], []])
   \<and> [rows_AB, rows_AB, [], []] ! 0 = [rows_AB] ! 0"
proof -
  have l: "(0::nat) < length [rows_AB]" by simp
  have e1: "sortRecords_in_store strict_engine columns_AB_ascending 0 [rows_AB]
       = (Inr 1, [rows_AB, [[num_cell 1, num_cell 1], [num_cell 2, num_cell 1], [num_cell 1, num_cell 2]]])"
    by code_simp
  have e2: "filterRecords_in_store columns_XY_filtered 0 [rows_AB]
       = (Inr 3, [rows_AB, rows_AB, [], []])"
    by code_simp
  have "[rows_AB, [[num_cell 1, num_cell 1], [num_cell 2, num_cell 1], [num_cell 1, num_cell 2]]] ! 0
       = [rows_AB] ! 0"
    using sort_and_filter_leave_input [OF l, of strict_engine columns_AB_ascending] e1 by blast
  moreover have "[rows_AB, rows_AB, [], []] ! 0 = [rows_AB] ! 0"
    using sort_and_filter_leave_input [OF l, of strict_engine columns_XY_filtered] e2 by blast
  ultimately show ?thesis
    using l e1 e2 by blast
qed

section \<open>ISO dates under the type eu_date\<close>

lemma first_some_map_None:
  "(\<And>k. k \<in> set ks \<Longrightarrow> f k = None) \<Longrightarrow> first_some (map f ks) = None"
  by (rule first_some_all_None) auto

lemma match_here_needs_literal:
  assumes "l \<notin> set s" and "(Lit l, Suc lo, hi) \<in> set p"
  shows "match_here p s = None"
  using assms
proof (induction p arbitrary: s)
  case Nil
  then show ?case by simp
next
  case (Cons it p)
  show ?case
  proof (cases "it = (Lit l, Suc lo, hi)")
    case True
    then show ?thesis
      using match_here_missing_literal [OF Cons.prems(1)] by simp
  next
    case False
    then have mem: "(Lit l, Suc lo, hi) \<in> set p" using Cons.prems(2) by simp
    obtain c lo' hi' where it: "it = (c, lo', hi')" by (cases it)
    have "match_here p (drop k s) = None" for k
      using Cons.IH [OF _ mem, of "drop k s"] Cons.prems(1) by (auto dest: in_set_dropD)
    then show ?thesis
      unfolding it by (subst match_here.simps(2), unfold Let_def, intro first_some_map_None) simp
  qed
qed

lemma search_needs_literal:
  "l \<notin> set s \<Longrightarrow> (Lit l, Suc lo, hi) \<in> set p \<Longrightarrow> search p s = None"
  by (induction s) (simp_all add: match_here_needs_literal)

lemma rev_upt_top: "lo \<le> n \<Longrightarrow> rev [lo ..< Suc n] = n # rev [lo ..< n]"
  by simp

text \<open>A block of digits that ends where the digits end is taken whole.\<close>

lemma match_here_digits:
  assumes "list_all is_digit ds" and "lo \<le> length ds" and "length ds \<le> hi"
    and "rest = [] \<or> \<not> is_digit (hd rest)"
    and "match_here p rest = Some n"
  shows "match_here ((Digit, lo, Some hi) # p) (ds @ rest) = Some (length ds + n)"
proof -
  have tw: "takeWhile (in_class Digit) (ds @ rest) = ds"
  proof (cases rest)
    case Nil
    then show ?thesis using assms(1) by (simp add: list_all_iff)
  next
    case (Cons r rs)
    then have "\<not> is_digit r" using assms(4) by simp
    then show ?thesis using assms(1) Cons by (simp add: list_all_iff takeWhile_tail)
  qed
  have m: "min hi (length ds) = length ds" using assms(3) by simp
  show ?thesis
    by (subst match_here.simps(2))
       (simp add: Let_def tw m rev_upt_top [OF assms(2)] assms(5) del: upt_Suc)
qed

lemma match_here_literal:
  assumes "match_here p rest = Some n"
  shows "match_here ((Lit l, Suc 0, Some (Suc 0)) # p) (l # rest) = Some (Suc n)"
proof -
  have "min (Suc 0) (length (takeWhile (in_class (Lit l)) (l # rest))) = Suc 0"
    by simp
  then show ?thesis
    by (subst match_here.simps(2)) (simp add: Let_def assms del: takeWhile.simps)
qed

lemma split_char_no_sep: "sep \<notin> set a \<Longrightarrow> split_char sep a = [a]"
  by (induction a) auto

lemma split_char_append:
  "sep \<notin> set a \<Longrightarrow> split_char sep (a @ sep # rest) = a # split_char sep rest"
  by (induction a) auto

lemma digit_not_punct:
  "is_digit c \<Longrightarrow> c \<noteq> CHR ''-'' \<and> c \<noteq> CHR ''/'' \<and> c \<noteq> CHR ''T'' \<and> c \<noteq> CHR '':''"
  by (auto simp: is_digit_def)

lemma digits_no_punct:
  "list_all is_digit ds \<Longrightarrow>
   CHR ''-'' \<notin> set ds \<and> CHR ''/'' \<notin> set ds \<and> CHR ''T'' \<notin> set ds \<and> CHR '':'' \<notin> set ds"
  using digit_not_punct by (auto simp: list_all_iff)

lemma iso_date_match:
  assumes "iso_date_string y m d" and "rest = [] \<or> \<not> is_digit (hd rest)"
  shows "match_here isoDateFormatRegex (y @ ''-'' @ m @ ''-'' @ d @ rest)
         = Some (length (y @ ''-'' @ m @ ''-'' @ d))"
proof -
  have nd: "\<not> is_digit CHR ''-''" by (simp add: is_digit_def)
  have 1: "match_here [(Digit, 1, Some 2)] (d @ rest) = Some (length d + 0)"
    using assms by (intro match_here_digits) (simp_all add: iso_date_string_def match_here.simps)
  have 2: "match_here [(Lit CHR ''-'', Suc 0, Some (Suc 0)), (Digit, 1, Some 2)] (CHR ''-'' # d @ rest)
           = Some (Suc (length d))"
    using match_here_literal [OF 1] by simp
  have 3: "match_here [(Digit, 1, Some 2), (Lit CHR ''-'', Suc 0, Some (Suc 0)), (Digit, 1, Some 2)]
             (m @ CHR ''-'' # d @ rest) = Some (length m + Suc (length d))"
    using assms nd by (intro match_here_digits 2) (simp_all add: iso_date_string_def)
  have 4: "match_here [(Lit CHR ''-'', Suc 0, Some (Suc 0)), (Digit, 1, Some 2),
                       (Lit CHR ''-'', Suc 0, Some (Suc 0)), (Digit, 1, Some 2)]
             (CHR ''-'' # m @ CHR ''-'' # d @ rest) = Some (Suc (length m + Suc (length d)))"
    by (rule match_here_literal [OF 3])
  have 5: "match_here [(Digit, 4, Some 4), (Lit CHR ''-'', Suc 0, Some (Suc 0)), (Digit, 1, Some 2),
                       (Lit CHR ''-'', Suc 0, Some (Suc 0)), (Digit, 1, Some 2)]
             (y @ CHR ''-'' # m @ CHR ''-'' # d @ rest)
           = Some (length y + Suc (length m + Suc (length d)))"
    using assms nd by (intro match_here_digits 4) (simp_all add: iso_date_string_def)
  then show ?thesis
    by (simp add: isoDateFormatRegex_def)
qed

lemma iso_date_to_eu:
  assumes "iso_date_string y m d"
  shows "parseDataPoint (JStr (y @ ''-'' @ m @ ''-'' @ d)) (Some ''eu_date'')
         = JStr (d @ ''/'' @ m @ ''/'' @ y)"
proof -
  let ?s = "y @ ''-'' @ m @ ''-'' @ d"
  have np: "CHR ''-'' \<notin> set y" "CHR ''-'' \<notin> set m" "CHR ''-'' \<notin> set d"
      "CHR ''/'' \<notin> set ?s" "CHR ''T'' \<notin> set ?s"
    using assms digits_no_punct [of y] digits_no_punct [of m] digits_no_punct [of d]
    by (simp_all add: iso_date_string_def)
  obtain c cs where s: "?s = c # cs"
    using assms by (cases y) (auto simp: iso_date_string_def)
  have t: "truthy (JStr ?s)" using s by (simp add: truthy_def)
  have eu: "\<not> regex_test euDateTimeRegExp ?s"
    using np(4) by (simp add: regex_test_def search_eu_pattern_needs_slash del: append_assoc)
  have "match_here isoDateFormatRegex ?s = Some (length ?s)"
    using iso_date_match [OF assms, of "[]"] by simp
  then have mh: "match_here isoDateFormatRegex (c # cs) = Some (length (c # cs))"
    unfolding s .
  have m: "regex_match isoDateFormatRegex ?s = Some ?s"
    unfolding s regex_match_def by (simp add: mh)
  have sp: "split_char CHR ''-'' ?s = [y, m, d]"
    using np(1-3) by (simp add: split_char_append split_char_no_sep)
  have "(Lit CHR ''T'', Suc 0, Some (Suc 0)) \<in> set isoDateTimeFormatRegex"
    by (simp add: isoDateTimeFormatRegex_def)
  then have nt: "\<not> regex_test isoDateTimeFormatRegex ?s"
    using search_needs_literal [OF np(5)] by (simp add: regex_test_def)
  have ne: "?s \<noteq> []" using s by simp
  have "convertIsoDateInEuDate ?s ''no-space'' True = d @ ''/'' @ m @ ''/'' @ y"
    using m nt sp ne by (simp add: convertIsoDateInEuDate_def Let_def nth_or_undefined_def)
  then show ?thesis
    using t eu unfolding parseDataPoint_def Let_def
    by (simp add: js_String_def)
qed


lemma match_here_literal_mismatch:
  assumes "t = [] \<or> hd t \<noteq> l"
  shows "match_here ((Lit l, Suc lo, hi) # p) t = None"
proof -
  have "takeWhile (in_class (Lit l)) t = []"
    using assms by (cases t) auto
  then show ?thesis
    by (cases hi) (simp_all add: match_here.simps Let_def)
qed

lemma time_no_match:
  assumes "(t = [] \<or> \<not> is_digit (hd t)) \<or> CHR '':'' \<notin> set (take 2 (drop 1 t))"
  shows "match_here timeRegex t = None"
proof (cases "t = [] \<or> \<not> is_digit (hd t)")
  case True
  then have "takeWhile (in_class Digit) t = []"
    by (cases t) auto
  then show ?thesis
    unfolding timeRegex_def by (subst match_here.simps(2)) (simp add: Let_def)
next
  case False
  then have nc: "CHR '':'' \<notin> set (take 2 (drop 1 t))" using assms by simp
  have inner: "match_here ((Lit CHR '':'', Suc 0, Some (Suc 0)) # p) (drop k t) = None"
    if "k = 1 \<or> k = 2" for k p
  proof (rule match_here_literal_mismatch)
    show "drop k t = [] \<or> hd (drop k t) \<noteq> CHR '':''"
    proof (cases "k < length t")
      case True
      then have "hd (drop k t) = t ! k" by (simp add: hd_drop_conv_nth)
      moreover have "t ! k \<in> set (take 2 (drop 1 t))"
      proof -
        have "take 2 (drop 1 t) ! (k - 1) = t ! k"
          using that True by (auto simp: numeral_2_eq_2)
        moreover have "k - 1 < length (take 2 (drop 1 t))"
          using that True by auto
        ultimately show ?thesis by (metis nth_mem)
      qed
      ultimately show ?thesis using nc by auto
    next
      case False
      then show ?thesis by simp
    qed
  qed
  have ks: "k = 1 \<or> k = 2"
    if "k \<in> set (rev [1 ..< Suc (min 2 (length (takeWhile (in_class Digit) t)))])" for k
    using that by auto
  show ?thesis
    unfolding timeRegex_def
    by (subst match_here.simps(2), unfold Let_def option.case, rule first_some_map_None)
       (use ks inner in auto)
qed

lemma search_skip:
  assumes "\<forall>i<length pre. match_here p (drop i (pre @ t)) = None"
  shows "search p (pre @ t) = map_option (\<lambda>(a, m). (pre @ a, m)) (search p t)"
  using assms
proof (induction pre)
  case Nil
  then show ?case by (simp add: option.map_ident case_prod_unfold)
next
  case (Cons c pre)
  have "match_here p (c # pre @ t) = None"
    using Cons.prems by (metis append_Cons drop0 length_greater_0_conv list.discI)
  moreover have "\<forall>i<length pre. match_here p (drop i (pre @ t)) = None"
    using Cons.prems by (metis Suc_less_eq append_Cons drop_Suc_Cons length_Cons)
  ultimately show ?case
    using Cons.IH by (simp add: option.map_comp comp_def case_prod_unfold split: option.splits)
qed

lemma iso_date_match_then:
  assumes "iso_date_string y m d" and "rest = [] \<or> \<not> is_digit (hd rest)"
    and "match_here q rest = Some n"
  shows "match_here (isoDateFormatRegex @ q) (y @ ''-'' @ m @ ''-'' @ d @ rest)
         = Some (length (y @ ''-'' @ m @ ''-'' @ d) + n)"
proof -
  have nd: "\<not> is_digit CHR ''-''" by (simp add: is_digit_def)
  have 1: "match_here ((Digit, 1, Some 2) # q) (d @ rest) = Some (length d + n)"
    using assms by (intro match_here_digits) (simp_all add: iso_date_string_def)
  have 2: "match_here ((Lit CHR ''-'', Suc 0, Some (Suc 0)) # (Digit, 1, Some 2) # q)
             (CHR ''-'' # d @ rest) = Some (Suc (length d + n))"
    by (rule match_here_literal [OF 1])
  have 3: "match_here ((Digit, 1, Some 2) # (Lit CHR ''-'', Suc 0, Some (Suc 0)) # (Digit, 1, Some 2) # q)
             (m @ CHR ''-'' # d @ rest) = Some (length m + Suc (length d + n))"
    using assms nd by (intro match_here_digits 2) (simp_all add: iso_date_string_def)
  have 4: "match_here ((Lit CHR ''-'', Suc 0, Some (Suc 0)) # (Digit, 1, Some 2)
                       # (Lit CHR ''-'', Suc 0, Some (Suc 0)) # (Digit, 1, Some 2) # q)
             (CHR ''-'' # m @ CHR ''-'' # d @ rest) = Some (Suc (length m + Suc (length d + n)))"
    by (rule match_here_literal [OF 3])
  have 5: "match_here ((Digit, 4, Some 4) # (Lit CHR ''-'', Suc 0, Some (Suc 0)) # (Digit, 1, Some 2)
                       # (Lit CHR ''-'', Suc 0, Some (Suc 0)) # (Digit, 1, Some 2) # q)
             (y @ CHR ''-'' # m @ CHR ''-'' # d @ rest)
           = Some (length y + Suc (length m + Suc (length d + n)))"
    using assms nd by (intro match_here_digits 4) (simp_all add: iso_date_string_def)
  then show ?thesis
    by (simp add: isoDateFormatRegex_def)
qed

lemma iso_time_match:
  assumes "iso_time_string h mi se" and "rest = [] \<or> \<not> is_digit (hd rest)"
  shows "match_here timeRegex (h @ '':'' @ mi @ '':'' @ se @ rest)
         = Some (length (h @ '':'' @ mi @ '':'' @ se))"
proof -
  have nd: "\<not> is_digit CHR '':''" by (simp add: is_digit_def)
  have 1: "match_here [(Digit, 1, Some 2)] (se @ rest) = Some (length se + 0)"
    using assms by (intro match_here_digits) (simp_all add: iso_time_string_def match_here.simps)
  have 2: "match_here [(Lit CHR '':'', Suc 0, Some (Suc 0)), (Digit, 1, Some 2)] (CHR '':'' # se @ rest)
           = Some (Suc (length se))"
    using match_here_literal [OF 1] by simp
  have 3: "match_here [(Digit, 1, Some 2), (Lit CHR '':'', Suc 0, Some (Suc 0)), (Digit, 1, Some 2)]
             (mi @ CHR '':'' # se @ rest) = Some (length mi + Suc (length se))"
    using assms nd by (intro match_here_digits 2) (simp_all add: iso_time_string_def)
  have 4: "match_here [(Lit CHR '':'', Suc 0, Some (Suc 0)), (Digit, 1, Some 2),
                       (Lit CHR '':'', Suc 0, Some (Suc 0)), (Digit, 1, Some 2)]
             (CHR '':'' # mi @ CHR '':'' # se @ rest) = Some (Suc (length mi + Suc (length se)))"
    by (rule match_here_literal [OF 3])
  have 5: "match_here [(Digit, 1, Some 2), (Lit CHR '':'', Suc 0, Some (Suc 0)), (Digit, 1, Some 2),
                       (Lit CHR '':'', Suc 0, Some (Suc 0)), (Digit, 1, Some 2)]
             (h @ CHR '':'' # mi @ CHR '':'' # se @ rest)
           = Some (length h + Suc (length mi + Suc (length se)))"
    using assms nd by (intro match_here_digits 4) (simp_all add: iso_time_string_def)
  then show ?thesis
    by (simp add: timeRegex_def)
qed


lemma set_take_drop_subset: "set (take k (drop j s)) \<subseteq> set (take (j + k) s)"
  by (simp add: take_add)

lemma window_subset:
  assumes "i + 3 \<le> n"
  shows "set (take 2 (drop 1 (drop i X))) \<subseteq> set (take n X)"
proof -
  have "set (take 2 (drop 1 (drop i X))) \<subseteq> set (take (Suc i + 2) X)"
    using set_take_drop_subset [of 2 "Suc i" X] by simp
  also have "\<dots> \<subseteq> set (take n X)"
    using assms by (intro set_take_subset_set_take) simp
  finally show ?thesis .
qed

lemma time_search_after_prefix:
  assumes "CHR '':'' \<notin> set P" and "P = Q @ [c]" and "\<not> is_digit c"
    and "T = h1 # T'" and "h1 \<noteq> CHR '':''" and "match_here timeRegex T = Some (length T)"
  shows "search timeRegex (P @ T) = Some (P, T)"
proof -
  have skip: "match_here timeRegex (drop i (P @ T)) = None" if i: "i < length P" for i
  proof (cases "Suc i = length P")
    case True
    then have "drop i (P @ T) = c # T"
      using assms(2) by simp
    then show ?thesis
      using time_no_match [of "c # T"] assms(3) by simp
  next
    case False
    then have le: "i + 3 \<le> length P + 1" using i by simp
    have "set (take 2 (drop 1 (drop i (P @ T)))) \<subseteq> set (take (length P + 1) (P @ T))"
      by (rule window_subset [OF le])
    also have "\<dots> = set (P @ [h1])"
      using assms(4) by simp
    finally have "CHR '':'' \<notin> set (take 2 (drop 1 (drop i (P @ T))))"
      using assms(1,5) by auto
    then show ?thesis
      by (rule time_no_match [OF disjI2])
  qed
  have "search timeRegex T = Some ([], T)"
    using assms(6) unfolding assms(4) by simp
  then show ?thesis
    using search_skip [of P timeRegex T] skip by simp
qed

lemma iso_datetime_to_eu:
  assumes "iso_date_string y m d" and "iso_time_string h mi se"
  shows "parseDataPoint (JStr (y @ ''-'' @ m @ ''-'' @ d @ ''T'' @ h @ '':'' @ mi @ '':'' @ se))
           (Some ''eu_date'')
         = JStr (d @ ''/'' @ m @ ''/'' @ y @ ''<br />'' @ h @ '':'' @ mi @ '':'' @ se)"
proof -
  let ?date = "y @ ''-'' @ m @ ''-'' @ d"
  let ?time = "h @ '':'' @ mi @ '':'' @ se"
  let ?s = "y @ ''-'' @ m @ ''-'' @ d @ ''T'' @ h @ '':'' @ mi @ '':'' @ se"
  have dg: "list_all is_digit y" "list_all is_digit m" "list_all is_digit d"
      "list_all is_digit h" "list_all is_digit mi" "list_all is_digit se"
    using assms by (simp_all add: iso_date_string_def iso_time_string_def)
  have np: "CHR ''-'' \<notin> set y" "CHR ''-'' \<notin> set m" "CHR ''-'' \<notin> set d"
    using dg digits_no_punct by blast+
  have ns: "CHR ''/'' \<notin> set ?s"
    using digits_no_punct [OF dg(1)] digits_no_punct [OF dg(2)] digits_no_punct [OF dg(3)]
      digits_no_punct [OF dg(4)] digits_no_punct [OF dg(5)] digits_no_punct [OF dg(6)]
    by simp
  have ncp: "CHR '':'' \<notin> set (?date @ ''T'')"
    using digits_no_punct [OF dg(1)] digits_no_punct [OF dg(2)] digits_no_punct [OF dg(3)]
    by simp
  obtain h1 hs where h: "h = h1 # hs" "is_digit h1"
    using assms(2) by (cases h) (auto simp: iso_time_string_def)
  obtain c cs where s: "?s = c # cs"
    using assms(1) by (cases y) (auto simp: iso_date_string_def)
  have t: "?time = h1 # (hs @ '':'' @ mi @ '':'' @ se)"
    using h by simp
  have tm: "match_here timeRegex ?time = Some (length ?time)"
    using iso_time_match [OF assms(2), of "[]"] by simp
  \<comment> \<open>the date is the leftmost match of the date pattern\<close>
  have "match_here isoDateFormatRegex ?s = Some (length ?date)"
    using iso_date_match_then [OF assms(1), of "''T'' @ ?time" "[]" 0]
    by (simp add: is_digit_def match_here.simps)
  then have "search isoDateFormatRegex (c # cs) = Some ([], take (length ?date) (c # cs))"
    unfolding s by simp
  then have dm: "regex_match isoDateFormatRegex ?s = Some ?date"
    unfolding s [symmetric] by (simp add: regex_match_def)
  \<comment> \<open>the date-and-time pattern matches\<close>
  have tt: "match_here ((Lit CHR ''T'', Suc 0, Some (Suc 0)) # timeRegex) (CHR ''T'' # ?time)
        = Some (Suc (length ?time))"
    by (rule match_here_literal [OF tm])
  have "match_here isoDateTimeFormatRegex ?s \<noteq> None"
    using iso_date_match_then [OF assms(1) _ tt]
    by (simp add: isoDateTimeFormatRegex_def is_digit_def)
  then have "match_here isoDateTimeFormatRegex (c # cs) \<noteq> None"
    unfolding s .
  then have dt: "regex_test isoDateTimeFormatRegex ?s"
    unfolding s by (auto simp: regex_test_def)
  \<comment> \<open>the time is the leftmost match of the time pattern\<close>
  have "search timeRegex ((?date @ ''T'') @ ?time) = Some (?date @ ''T'', ?time)"
  proof (rule time_search_after_prefix [OF ncp _ _ t _ tm])
    show "?date @ ''T'' = ?date @ [CHR ''T'']" by simp
    show "\<not> is_digit CHR ''T''" by (simp add: is_digit_def)
    show "h1 \<noteq> CHR '':''" using h(2) digit_not_punct by blast
  qed
  then have tmm: "regex_match timeRegex ?s = Some ?time"
    by (simp add: regex_match_def)
  have sp: "split_char CHR ''-'' ?date = [y, m, d]"
    using np by (simp add: split_char_append split_char_no_sep)
  have ne: "?date \<noteq> []" "?time \<noteq> []" using h assms(1) by (auto simp: iso_date_string_def)
  have "convertIsoDateInEuDate ?s ''no-space'' True
        = d @ ''/'' @ m @ ''/'' @ y @ ''<br />'' @ ?time"
    using dm dt tmm sp ne
    by (simp add: convertIsoDateInEuDate_def Let_def nth_or_undefined_def)
  moreover have "truthy (JStr ?s)" using s by (simp add: truthy_def)
  moreover have "\<not> regex_test euDateTimeRegExp ?s"
    using ns by (simp add: regex_test_def search_eu_pattern_needs_slash del: append_assoc)
  ultimately show ?thesis
    unfolding parseDataPoint_def Let_def by (simp add: js_String_def)
qed


text \<open>
  Claim C7. Under the type \<open>eu_date\<close> the ISO date \<open>2023-05-07\<close> becomes \<open>07/05/2023\<close>. In
  general an ISO date of a four-digit year, a month and a day of one or two digits becomes
  day, month and year joined by \<open>/\<close>, each with the digits it had (no zero is stripped or
  added); when a time of day follows the date, the date is converted in the same way and the
  time follows it after the line break \<open><br />\<close>; and a string that already matches the EU
  pattern is returned as it is.
\<close>

theorem iso_date_normalised_to_eu:
  "parseDataPoint (JStr ''2023-05-07'') (Some ''eu_date'') = JStr ''07/05/2023''
   \<and> (iso_date_string y m d \<longrightarrow>
        parseDataPoint (JStr (y @ ''-'' @ m @ ''-'' @ d)) (Some ''eu_date'')
        = JStr (d @ ''/'' @ m @ ''/'' @ y))
   \<and> (iso_date_string y m d \<and> iso_time_string h mi se \<longrightarrow>
        parseDataPoint (JStr (y @ ''-'' @ m @ ''-'' @ d @ ''T'' @ h @ '':'' @ mi @ '':'' @ se))
          (Some ''eu_date'')
        = JStr (d @ ''/'' @ m @ ''/'' @ y @ ''<br />'' @ h @ '':'' @ mi @ '':'' @ se))
   \<and> (regex_test euDateTimeRegExp s \<longrightarrow> parseDataPoint (JStr s) (Some ''eu_date'') = JStr s)"
proof (intro conjI impI)
  show "parseDataPoint (JStr ''2023-05-07'') (Some ''eu_date'') = JStr ''07/05/2023''"
    by code_simp
next
  assume "iso_date_string y m d"
  then show "parseDataPoint (JStr (y @ ''-'' @ m @ ''-'' @ d)) (Some ''eu_date'')
             = JStr (d @ ''/'' @ m @ ''/'' @ y)"
    by (rule iso_date_to_eu)
next
  assume "iso_date_string y m d \<and> iso_time_string h mi se"
  then show "parseDataPoint (JStr (y @ ''-'' @ m @ ''-'' @ d @ ''T'' @ h @ '':'' @ mi @ '':'' @ se))
               (Some ''eu_date'')
             = JStr (d @ ''/'' @ m @ ''/'' @ y @ ''<br />'' @ h @ '':'' @ mi @ '':'' @ se)"
    using iso_datetime_to_eu by blast
next
  assume m: "regex_test euDateTimeRegExp s"
  have "s \<noteq> []"
    using m search_eu_pattern_needs_slash [of "[]"] by (auto simp: regex_test_def simp del: search.simps)
  then show "parseDataPoint (JStr s) (Some ''eu_date'') = JStr s"
    using m by (simp add: parseDataPoint_def Let_def truthy_def js_String_def)
qed

theorem iso_date_normalised_to_eu_witness:
  "iso_date_string ''1999'' ''12'' ''3''
   \<and> parseDataPoint (JStr (''1999'' @ ''-'' @ ''12'' @ ''-'' @ ''3'')) (Some ''eu_date'')
       = JStr (''3'' @ ''/'' @ ''12'' @ ''/'' @ ''1999'')
   \<and> iso_time_string ''10'' ''5'' ''30''
   \<and> parseDataPoint
         (JStr (''1999'' @ ''-'' @ ''12'' @ ''-'' @ ''3'' @ ''T'' @ ''10'' @ '':'' @ ''5'' @ '':'' @ ''30''))
         (Some ''eu_date'')
       = JStr (''3'' @ ''/'' @ ''12'' @ ''/'' @ ''1999'' @ ''<br />'' @ ''10'' @ '':'' @ ''5'' @ '':'' @ ''30'')
   \<and> regex_test euDateTimeRegExp ''07/05/2023''
   \<and> parseDataPoint (JStr ''07/05/2023'') (Some ''eu_date'') = JStr ''07/05/2023''"
proof -
  have i: "iso_date_string ''1999'' ''12'' ''3''" by code_simp
  have t: "iso_time_string ''10'' ''5'' ''30''" by code_simp
  have r: "regex_test euDateTimeRegExp ''07/05/2023''" by code_simp
  show ?thesis
    using iso_date_normalised_to_eu
      [of "''1999''" "''12''" "''3''" "''10''" "''5''" "''30''" "''07/05/2023''"] i t r
    by blast
qed

section \<open>The comparison function of one column\<close>

lemma eu_date_nullish: "regex_test euDateTimeRegExp (js_String (nullish_to_empty v))
                        = regex_test euDateTimeRegExp (js_String v)"
proof (cases "v = JUndefined \<or> v = JNull")
  case True
  then have "\<not> regex_test euDateTimeRegExp (js_String v)"
    by (intro non_string_never_eu_date) auto
  moreover have "\<not> regex_test euDateTimeRegExp (js_String (JStr []))"
    using search_eu_pattern_needs_slash [of "[]"]
    by (simp add: js_String_def regex_test_def del: search.simps)
  ultimately show ?thesis using True by (simp add: nullish_to_empty_def)
next
  case False
  then show ?thesis by (simp add: nullish_to_empty_def)
qed

lemma eu_date_is_string:
  "regex_test euDateTimeRegExp (js_String v) \<Longrightarrow> nullish_to_empty v = v"
  using non_string_never_eu_date [of v] by (auto simp: nullish_to_empty_def)

lemma compare_values_nullish:
  "compare_values eng k a b = compare_values eng k (nullish_to_empty a) (nullish_to_empty b)"
  by (simp add: compare_values_def nullish_to_empty_def)

lemma compare_values_unfold:
  "compare_values eng k a b =
     (if both_eu_dates a b
      then compare_after k (JNum (timestamp_of eng a)) (JNum (timestamp_of eng b))
      else compare_after k (nullish_to_empty a) (nullish_to_empty b))"
proof -
  define a1 where "a1 = nullish_to_empty a"
  define b1 where "b1 = nullish_to_empty b"
  have d: "compare_values eng k a b =
     (case (if regex_test euDateTimeRegExp (js_String a1) \<and> regex_test euDateTimeRegExp (js_String b1)
            then (JNum (Date_parse eng (convertEuDateInIsoDate (js_String a1))),
                  JNum (Date_parse eng (convertEuDateInIsoDate (js_String b1))))
            else (a1, b1)) of
        (pa, pb) \<Rightarrow>
          if is_numeric pa \<and> is_numeric pb
          then num_scale k (num_sub (js_parseFloat pa) (js_parseFloat pb))
          else if pa \<noteq> JUndefined \<and> pb \<noteq> JUndefined
          then (if js_less pa pb then Fin (k * (- 1))
                else if js_less pb pa then Fin (k * 1) else Fin 0)
          else Fin 0)"
    by (simp only: compare_values_def Let_def a1_def b1_def nullish_to_empty_def)
  have m: "(regex_test euDateTimeRegExp (js_String a1) \<and> regex_test euDateTimeRegExp (js_String b1))
           = both_eu_dates a b"
    by (simp add: a1_def b1_def both_eu_dates_def eu_date_nullish)
  have nu: "a1 \<noteq> JUndefined" "b1 \<noteq> JUndefined"
    by (simp_all add: a1_def b1_def nullish_to_empty_def)
  show ?thesis
  proof (cases "both_eu_dates a b")
    case True
    then have e: "a1 = a" "b1 = b"
      by (simp_all add: a1_def b1_def both_eu_dates_def eu_date_is_string)
    from True m have c: "(regex_test euDateTimeRegExp (js_String a1)
                          \<and> regex_test euDateTimeRegExp (js_String b1)) = True"
      by simp
    have "compare_values eng k a b
          = compare_after k (JNum (timestamp_of eng a)) (JNum (timestamp_of eng b))"
      unfolding d c by (simp add: compare_after_def timestamp_of_def e)
    then show ?thesis using True by simp
  next
    case False
    with m have c: "(regex_test euDateTimeRegExp (js_String a1)
                     \<and> regex_test euDateTimeRegExp (js_String b1)) = False"
      by simp
    have "compare_values eng k a b = compare_after k a1 b1"
      unfolding d c using nu by (simp add: compare_after_def)
    then show ?thesis using False by (simp add: a1_def b1_def)
  qed
qed

lemma not_dates_numbers: "\<not> both_eu_dates (JNum x) (JNum y)"
  using non_string_never_eu_date [of "JNum x"] by (simp add: both_eu_dates_def)

lemma compare_values_dates:
  assumes "both_eu_dates a b"
  shows "compare_values eng k a b
         = compare_values eng k (JNum (timestamp_of eng a)) (JNum (timestamp_of eng b))"
  using assms
  by (simp add: compare_values_unfold [of eng k a b]
      compare_values_unfold [of eng k "JNum (timestamp_of eng a)"] not_dates_numbers
      nullish_to_empty_def)

lemma num_scale_neg: "num_scale (- k) x = num_scale (- 1) (num_scale k x)"
  by (cases x) (auto simp: num_scale_def)

lemma compare_values_direction:
  "compare_values eng (- k) a b = num_scale (- 1) (compare_values eng k a b)"
  by (simp add: compare_values_unfold compare_after_def num_scale_neg [of k])
     (simp add: num_scale_def)

text \<open>An optional item that finds none of its characters matches the empty string.\<close>

lemma match_here_optional_absent:
  assumes "t = [] \<or> \<not> in_class c (hd t)"
  shows "match_here ((c, 0, hi) # p) t = match_here p t"
proof -
  have tw: "takeWhile (in_class c) t = []"
    using assms by (cases t) auto
  have id: "map_option ((+) 0) x = x" for x :: "nat option"
    by (cases x) simp_all
  have one: "first_some [x] = x" for x :: "nat option"
    by (cases x) simp_all
  show ?thesis
    by (subst match_here.simps(2)) (cases hi; simp add: Let_def tw id one)
qed

lemma digit_not_space: "is_digit c \<Longrightarrow> \<not> is_space c \<and> c \<noteq> CHR '' '' \<and> c \<noteq> CHR ''s''"
  by (auto simp: is_digit_def is_space_def)

lemma eu_pattern_tail:
  "match_here [(Space, 0, Some 1), (Lit CHR '':'', 0, Some 1), (Digit, 0, Some 2),
               (Lit CHR '':'', 0, Some 1), (Digit, 0, Some 2),
               (Lit CHR '':'', 0, Some 1), (Digit, 0, Some 2)] [] = Some 0"
  by (simp add: match_here_optional_absent match_here.simps(1))

text \<open>A date \<open>D[D]/M[M]/YYYY\<close> matches the pattern of the comparison function.\<close>

lemma eu_date_matches:
  assumes "eu_date_string d m y"
  shows "regex_test euDateTimeRegExp (d @ ''/'' @ m @ ''/'' @ y)"
proof -
  let ?tail = "[(Space, 0, Some 1), (Lit CHR '':'', 0, Some 1), (Digit, 0, Some 2),
                (Lit CHR '':'', 0, Some 1), (Digit, 0, Some 2),
                (Lit CHR '':'', 0, Some 1), (Digit, 0, Some 2)]"
  have nd: "\<not> is_digit CHR ''/''" by (simp add: is_digit_def)
  have 1: "match_here ((Digit, 4, Some 4) # ?tail) (y @ []) = Some (length y + 0)"
    using assms by (intro match_here_digits eu_pattern_tail) (simp_all add: eu_date_string_def)
  have 2: "match_here ((Lit CHR ''/'', Suc 0, Some (Suc 0)) # (Digit, 4, Some 4) # ?tail)
             (CHR ''/'' # y @ []) = Some (Suc (length y + 0))"
    by (rule match_here_literal [OF 1])
  have 3: "match_here ((Digit, 1, Some 2) # (Lit CHR ''/'', Suc 0, Some (Suc 0))
                       # (Digit, 4, Some 4) # ?tail)
             (m @ CHR ''/'' # y @ []) = Some (length m + Suc (length y + 0))"
    using assms nd by (intro match_here_digits 2) (simp_all add: eu_date_string_def)
  have 4: "match_here ((Lit CHR ''/'', Suc 0, Some (Suc 0)) # (Digit, 1, Some 2)
                       # (Lit CHR ''/'', Suc 0, Some (Suc 0)) # (Digit, 4, Some 4) # ?tail)
             (CHR ''/'' # m @ CHR ''/'' # y @ []) = Some (Suc (length m + Suc (length y + 0)))"
    by (rule match_here_literal [OF 3])
  have 5: "match_here ((Digit, 1, Some 2) # (Lit CHR ''/'', Suc 0, Some (Suc 0)) # (Digit, 1, Some 2)
                       # (Lit CHR ''/'', Suc 0, Some (Suc 0)) # (Digit, 4, Some 4) # ?tail)
             (d @ CHR ''/'' # m @ CHR ''/'' # y @ [])
           = Some (length d + Suc (length m + Suc (length y + 0)))"
    using assms nd by (intro match_here_digits 4) (simp_all add: eu_date_string_def)
  then have mh: "match_here euDateTimeRegExp (d @ ''/'' @ m @ ''/'' @ y) \<noteq> None"
    by (simp add: euDateTimeRegExp_def)
  obtain c cs where s: "d @ ''/'' @ m @ ''/'' @ y = c # cs"
    using assms by (cases d) (auto simp: eu_date_string_def)
  show ?thesis
    using mh unfolding s regex_test_def by auto
qed

text \<open>The separator pattern of the conversion on a string of digits and slashes.\<close>

lemma separator_at_digit:
  assumes "is_digit c"
  shows "match_here slashSeparatorRegex (c # cs) = None"
proof -
  have "match_here slashSeparatorRegex (c # cs)
        = match_here [(Lit CHR ''/'', Suc 0, Some (Suc 0)), (Lit CHR '' '', 0, None)] (c # cs)"
    unfolding slashSeparatorRegex_def
    using assms digit_not_space [of c] by (intro match_here_optional_absent [THEN trans]) simp_all
  also have "\<dots> = None"
    using assms digit_not_punct [of c] by (intro match_here_literal_mismatch) simp
  finally show ?thesis .
qed

lemma separator_at_slash:
  assumes "t = [] \<or> is_digit (hd t)"
  shows "match_here slashSeparatorRegex (CHR ''/'' # t) = Some (Suc 0)"
proof -
  have sp: "t = [] \<or> \<not> in_class (Lit CHR '' '') (hd t)"
    using assms digit_not_space [of "hd t"] by auto
  have "match_here [(Lit CHR '' '', 0, None)] t = Some 0"
    using match_here_optional_absent [OF sp, of None "[]"] by (simp add: match_here.simps(1))
  then have "match_here [(Lit CHR ''/'', Suc 0, Some (Suc 0)), (Lit CHR '' '', 0, None)] (CHR ''/'' # t)
             = Some (Suc 0)"
    by (rule match_here_literal)
  moreover have "match_here slashSeparatorRegex (CHR ''/'' # t)
        = match_here [(Lit CHR ''/'', Suc 0, Some (Suc 0)), (Lit CHR '' '', 0, None)] (CHR ''/'' # t)"
    unfolding slashSeparatorRegex_def
    by (intro match_here_optional_absent [THEN trans]) simp_all
  ultimately show ?thesis by simp
qed

lemma split_regex_from_digits:
  assumes "list_all is_digit ds"
  shows "split_regex_from slashSeparatorRegex cur (ds @ rest)
         = split_regex_from slashSeparatorRegex (rev ds @ cur) rest"
  using assms
proof (induction ds arbitrary: cur)
  case Nil
  then show ?case by simp
next
  case (Cons c ds)
  then have "is_digit c" "list_all is_digit ds" by simp_all
  then show ?case
    using Cons.IH [of "c # cur"] by (simp add: separator_at_digit)
qed

lemma split_regex_from_slash:
  assumes "t = [] \<or> is_digit (hd t)"
  shows "split_regex_from slashSeparatorRegex cur (CHR ''/'' # t)
         = rev cur # split_regex_from slashSeparatorRegex [] t"
  by (simp add: separator_at_slash [OF assms])

lemma split_eu_date:
  assumes "eu_date_string d m y"
  shows "split_regex slashSeparatorRegex (d @ ''/'' @ m @ ''/'' @ y) = [d, m, y]"
proof -
  have dg: "list_all is_digit d" "list_all is_digit m" "list_all is_digit y"
    using assms by (simp_all add: eu_date_string_def)
  have hm: "m @ CHR ''/'' # y = [] \<or> is_digit (hd (m @ CHR ''/'' # y))"
    using assms by (cases m) (auto simp: eu_date_string_def)
  have hy: "y = [] \<or> is_digit (hd y)"
    using assms by (cases y) (auto simp: eu_date_string_def)
  have "split_regex_from slashSeparatorRegex [] (d @ CHR ''/'' # m @ CHR ''/'' # y)
        = split_regex_from slashSeparatorRegex (rev d) (CHR ''/'' # m @ CHR ''/'' # y)"
    using split_regex_from_digits [OF dg(1), of "[]"] by simp
  also have "\<dots> = d # split_regex_from slashSeparatorRegex [] (m @ CHR ''/'' # y)"
    using split_regex_from_slash [OF hm, of "rev d"] by simp
  also have "split_regex_from slashSeparatorRegex [] (m @ CHR ''/'' # y)
             = split_regex_from slashSeparatorRegex (rev m) (CHR ''/'' # y)"
    using split_regex_from_digits [OF dg(2), of "[]"] by simp
  also have "\<dots> = m # split_regex_from slashSeparatorRegex [] y"
    using split_regex_from_slash [OF hy, of "rev m"] by simp
  also have "split_regex_from slashSeparatorRegex [] y = [y]"
    using split_regex_from_digits [OF dg(3), of "[]" "[]"] by simp
  finally show ?thesis
    by (simp add: split_regex_def)
qed

text \<open>The date pattern of the conversion takes a date \<open>D[D]/M[M]/YYYY\<close> whole.\<close>

lemma eu_date_format_match:
  assumes "eu_date_string d m y"
  shows "regex_match euDateFormatRegex (d @ ''/'' @ m @ ''/'' @ y) = Some (d @ ''/'' @ m @ ''/'' @ y)"
proof -
  have nd: "\<not> is_digit CHR ''/''" "\<not> is_space CHR ''/''"
    by (simp_all add: is_digit_def is_space_def)
  obtain y1 ys where y: "y = y1 # ys" "is_digit y1"
    using assms by (cases y) (auto simp: eu_date_string_def)
  obtain m1 ms where m: "m = m1 # ms" "is_digit m1"
    using assms by (cases m) (auto simp: eu_date_string_def)
  have 1: "match_here [(Digit, 4, Some 4)] (y @ []) = Some (length y + 0)"
    using assms by (intro match_here_digits) (simp_all add: eu_date_string_def match_here.simps(1))
  have 2: "match_here [(Space, 0, Some 1), (Digit, 4, Some 4)] (y @ []) = Some (length y + 0)"
    using 1 y digit_not_space [of y1] by (subst match_here_optional_absent) simp_all
  have 3: "match_here [(Lit CHR ''/'', Suc 0, Some (Suc 0)), (Space, 0, Some 1), (Digit, 4, Some 4)]
             (CHR ''/'' # y @ []) = Some (Suc (length y + 0))"
    by (rule match_here_literal [OF 2])
  have 4: "match_here [(Space, 0, Some 1), (Lit CHR ''/'', Suc 0, Some (Suc 0)), (Space, 0, Some 1),
                       (Digit, 4, Some 4)]
             (CHR ''/'' # y @ []) = Some (Suc (length y + 0))"
    using 3 nd by (subst match_here_optional_absent) simp_all
  have 5: "match_here [(Digit, 1, Some 2), (Space, 0, Some 1), (Lit CHR ''/'', Suc 0, Some (Suc 0)),
                       (Space, 0, Some 1), (Digit, 4, Some 4)]
             (m @ CHR ''/'' # y @ []) = Some (length m + Suc (length y + 0))"
    using assms nd by (intro match_here_digits 4) (simp_all add: eu_date_string_def)
  have 6: "match_here [(Space, 0, Some 1), (Digit, 1, Some 2), (Space, 0, Some 1),
                       (Lit CHR ''/'', Suc 0, Some (Suc 0)), (Space, 0, Some 1), (Digit, 4, Some 4)]
             (m @ CHR ''/'' # y @ []) = Some (length m + Suc (length y + 0))"
    using 5 m digit_not_space [of m1] by (subst match_here_optional_absent) simp_all
  have 7: "match_here [(Lit CHR ''/'', Suc 0, Some (Suc 0)), (Space, 0, Some 1), (Digit, 1, Some 2),
                       (Space, 0, Some 1), (Lit CHR ''/'', Suc 0, Some (Suc 0)), (Space, 0, Some 1),
                       (Digit, 4, Some 4)]
             (CHR ''/'' # m @ CHR ''/'' # y @ []) = Some (Suc (length m + Suc (length y + 0)))"
    by (rule match_here_literal [OF 6])
  have 8: "match_here [(Space, 0, Some 1), (Lit CHR ''/'', Suc 0, Some (Suc 0)), (Space, 0, Some 1),
                       (Digit, 1, Some 2), (Space, 0, Some 1), (Lit CHR ''/'', Suc 0, Some (Suc 0)),
                       (Space, 0, Some 1), (Digit, 4, Some 4)]
             (CHR ''/'' # m @ CHR ''/'' # y @ []) = Some (Suc (length m + Suc (length y + 0)))"
    using 7 nd by (subst match_here_optional_absent) simp_all
  have 9: "match_here [(Digit, 1, Some 2), (Space, 0, Some 1), (Lit CHR ''/'', Suc 0, Some (Suc 0)),
                       (Space, 0, Some 1), (Digit, 1, Some 2), (Space, 0, Some 1),
                       (Lit CHR ''/'', Suc 0, Some (Suc 0)), (Space, 0, Some 1), (Digit, 4, Some 4)]
             (d @ CHR ''/'' # m @ CHR ''/'' # y @ [])
           = Some (length d + Suc (length m + Suc (length y + 0)))"
    using assms nd by (intro match_here_digits 8) (simp_all add: eu_date_string_def)
  then have mh: "match_here euDateFormatRegex (d @ ''/'' @ m @ ''/'' @ y)
                 = Some (length (d @ ''/'' @ m @ ''/'' @ y))"
    by (simp add: euDateFormatRegex_def)
  obtain c cs where s: "d @ ''/'' @ m @ ''/'' @ y = c # cs"
    using assms by (cases d) (auto simp: eu_date_string_def)
  show ?thesis
    using mh unfolding s regex_match_def by simp
qed

text \<open>The conversion of a date \<open>D[D]/M[M]/YYYY\<close> is \<open>YYYY-M[M]-D[D]\<close>.\<close>

lemma eu_date_to_iso:
  assumes "eu_date_string d m y"
  shows "convertEuDateInIsoDate (d @ ''/'' @ m @ ''/'' @ y) = y @ ''-'' @ m @ ''-'' @ d"
proof -
  let ?s = "d @ ''/'' @ m @ ''/'' @ y"
  have dg: "list_all is_digit d" "list_all is_digit m" "list_all is_digit y"
    using assms by (simp_all add: eu_date_string_def)
  have ns: "CHR ''s'' \<notin> set ?s"
    using dg digit_not_space by (auto simp: list_all_iff)
  have "(Lit CHR ''s'', Suc 0, Some (Suc 0)) \<in> set euDateTimeFormatRegex"
    by (simp add: euDateTimeFormatRegex_def)
  then have "search euDateTimeFormatRegex ?s = None"
    using ns by (intro search_needs_literal)
  then have nt: "\<not> regex_test euDateTimeFormatRegex ?s"
    by (simp only: regex_test_def) simp
  show ?thesis
    using nt eu_date_format_match [OF assms] split_eu_date [OF assms]
    by (simp add: convertEuDateInIsoDate_def Let_def nth_or_undefined_def)
qed

lemma compare_values_eu_dates:
  assumes "eu_date_string da ma ya" "eu_date_string db mb yb"
  shows "both_eu_dates (JStr (da @ ''/'' @ ma @ ''/'' @ ya)) (JStr (db @ ''/'' @ mb @ ''/'' @ yb))"
    and "compare_values eng k (JStr (da @ ''/'' @ ma @ ''/'' @ ya)) (JStr (db @ ''/'' @ mb @ ''/'' @ yb))
         = compare_values eng k (JNum (Date_parse eng (ya @ ''-'' @ ma @ ''-'' @ da)))
                                (JNum (Date_parse eng (yb @ ''-'' @ mb @ ''-'' @ db)))"
proof -
  show b: "both_eu_dates (JStr (da @ ''/'' @ ma @ ''/'' @ ya)) (JStr (db @ ''/'' @ mb @ ''/'' @ yb))"
    using eu_date_matches [OF assms(1)] eu_date_matches [OF assms(2)]
    by (simp add: both_eu_dates_def js_String_def)
  have t: "timestamp_of eng (JStr (da @ ''/'' @ ma @ ''/'' @ ya))
           = Date_parse eng (ya @ ''-'' @ ma @ ''-'' @ da)"
    "timestamp_of eng (JStr (db @ ''/'' @ mb @ ''/'' @ yb))
           = Date_parse eng (yb @ ''-'' @ mb @ ''-'' @ db)"
    using eu_date_to_iso [OF assms(1)] eu_date_to_iso [OF assms(2)]
    by (simp_all add: timestamp_of_def js_String_def)
  show "compare_values eng k (JStr (da @ ''/'' @ ma @ ''/'' @ ya)) (JStr (db @ ''/'' @ mb @ ''/'' @ yb))
        = compare_values eng k (JNum (Date_parse eng (ya @ ''-'' @ ma @ ''-'' @ da)))
                               (JNum (Date_parse eng (yb @ ''-'' @ mb @ ''-'' @ db)))"
    using compare_values_dates [OF b, of eng k] unfolding t .
qed

lemma compare_values_finite:
  "compare_values eng k (JNum (Fin x)) (JNum (Fin y)) = num_scale k (num_sub (Fin x) (Fin y))"
  by (simp add: compare_values_numbers num_sub_def)

text \<open>Three inputs on which the rounding and the white space decide the result: the literal
  \<open>1e400\<close> is infinite, so it is not numeric and compares as a string; the literals of
  \<open>2^53 + 1\<close> and \<open>2^53\<close> read as the same number and tie; the no-break space is skipped.\<close>

lemma digit_val_simps:
  "digit_val CHR ''0'' = 0" "digit_val CHR ''1'' = 1" "digit_val CHR ''2'' = 2"
  "digit_val CHR ''3'' = 3" "digit_val CHR ''4'' = 4" "digit_val CHR ''5'' = 5"
  "digit_val CHR ''6'' = 6" "digit_val CHR ''7'' = 7" "digit_val CHR ''8'' = 8"
  "digit_val CHR ''9'' = 9"
  by code_simp+

lemma huge_literal_out_of_range: "(2::rat) powi 1024 \<le> 10 ^ 400"
proof -
  have "(2::rat) powi 1024 \<le> 2 powi 1200"
    by (intro power_int_increasing) simp_all
  also have "(2::rat) powi 1200 = (2 ^ 3) ^ 400"
    by (simp add: power_int_def flip: power_mult)
  also have "\<dots> \<le> 10 ^ 400"
    by (intro power_mono) simp_all
  finally show ?thesis .
qed

lemma parse_huge_literal: "parse_StrDecimalLiteral ''1e400'' = Some (PInf, [])"
proof -
  have "parse_unsigned_decimal ''1e400'' = Some (10 ^ 400, [])"
    by (simp add: parse_unsigned_decimal_def parse_exponent_def strip_sign_def is_digit_def
        digits_value_def digit_val_simps pow10_def Let_def)
  then show ?thesis
    using round_overflow [OF huge_literal_out_of_range]
    by (simp add: parse_StrDecimalLiteral_def strip_sign_def)
qed

lemma parse_neighbouring_literals:
  "parse_StrDecimalLiteral ''9007199254740993'' = Some (Fin 9007199254740992, [])"
  "parse_StrDecimalLiteral ''9007199254740992'' = Some (Fin 9007199254740992, [])"
proof -
  have r: "round_to_double 9007199254740993 = Fin 9007199254740992"
    "round_to_double 9007199254740992 = Fin 9007199254740992"
    by code_simp+
  have "parse_unsigned_decimal ''9007199254740993'' = Some (9007199254740993, [])"
    "parse_unsigned_decimal ''9007199254740992'' = Some (9007199254740992, [])"
    by (simp_all add: parse_unsigned_decimal_def parse_exponent_def is_digit_def
        digits_value_def digit_val_simps pow10_def Let_def)
  then show "parse_StrDecimalLiteral ''9007199254740993'' = Some (Fin 9007199254740992, [])"
    "parse_StrDecimalLiteral ''9007199254740992'' = Some (Fin 9007199254740992, [])"
    using r by (simp_all add: parse_StrDecimalLiteral_def strip_sign_def)
qed

lemma trim_examples:
  "trim ''1e400'' = ''1e400''" "trim ''2'' = ''2''"
  "trim ''9007199254740993'' = ''9007199254740993''"
  "trim ''9007199254740992'' = ''9007199254740992''"
  by (simp_all add: trim_def is_space_def)

lemma huge_literal_not_numeric:
  "parseFloat_string ''1e400'' = PInf"
  "\<not> is_numeric (JStr ''1e400'')"
  "compare_values eng 1 (JStr ''1e400'') (JStr ''2'') = Fin (- 1)"
proof -
  show "parseFloat_string ''1e400'' = PInf"
    using parse_huge_literal by (simp add: parseFloat_string_def is_space_def)
  show n: "\<not> is_numeric (JStr ''1e400'')"
    using parse_huge_literal
    by (simp add: is_numeric_def js_isFinite_def js_ToNumber_def StringToNumber_def trim_examples)
  have d: "\<not> both_eu_dates (JStr ''1e400'') (JStr ''2'')"
    using search_eu_pattern_needs_slash [of "''1e400''"]
    by (simp add: both_eu_dates_def regex_test_def js_String_def del: search.simps)
  have "''1e400'' < ''2''" by code_simp
  then show "compare_values eng 1 (JStr ''1e400'') (JStr ''2'') = Fin (- 1)"
    using d n
    by (simp add: compare_values_unfold compare_after_def nullish_to_empty_def js_less_def)
qed

lemma neighbouring_literals_tie:
  "parseFloat_string ''9007199254740993'' = Fin 9007199254740992"
  "compare_values eng 1 (JStr ''9007199254740993'') (JStr ''9007199254740992'') = Fin 0"
proof -
  show p: "parseFloat_string ''9007199254740993'' = Fin 9007199254740992"
    using parse_neighbouring_literals by (simp add: parseFloat_string_def is_space_def)
  have q: "parseFloat_string ''9007199254740992'' = Fin 9007199254740992"
    using parse_neighbouring_literals by (simp add: parseFloat_string_def is_space_def)
  have n: "is_numeric (JStr ''9007199254740993'')" "is_numeric (JStr ''9007199254740992'')"
    using parse_neighbouring_literals p q
    by (simp_all add: is_numeric_def js_isFinite_def js_ToNumber_def StringToNumber_def trim_examples
        js_parseFloat_def js_String_def js_isNaN_def)
  have d: "\<not> both_eu_dates (JStr ''9007199254740993'') (JStr ''9007199254740992'')"
    using search_eu_pattern_needs_slash [of "''9007199254740993''"]
    by (simp add: both_eu_dates_def regex_test_def js_String_def del: search.simps)
  show "compare_values eng 1 (JStr ''9007199254740993'') (JStr ''9007199254740992'') = Fin 0"
    using d n p q
    by (simp add: compare_values_unfold compare_after_def nullish_to_empty_def js_parseFloat_def
        js_String_def num_sub_def num_scale_def round_to_double_small)
qed

lemma no_break_space_is_white_space:
  "StringToNumber [CHR 0xA0, CHR ''5'', CHR 0xA0] = Fin 5"
  "parseFloat_string [CHR 0xA0, CHR ''5''] = Fin 5"
  "regex_test [(Space, 1, Some 1)] [CHR 0xA0]"
  by code_simp+

text \<open>
  Claim C2, as the code has it. For two cell values \<open>a\<close> and \<open>b\<close> and the direction factor
  \<open>k\<close>: (1) \<open>undefined\<close> and \<open>null\<close> count as the empty string; (2) two dates
  \<open>D[D]/M[M]/YYYY\<close> with no time of day match the EU date/time pattern and are replaced by
  the timestamps of their ISO forms \<open>YYYY-M[M]-D[D]\<close>, and two finite timestamps compare as
  \<open>k\<close> times their difference; (3) when the values do not both match the pattern and both are
  numeric, the result is \<open>k\<close> times the difference of their \<open>parseFloat\<close> values; (4) when
  they do not both match the pattern and are not both numeric, the result comes from the
  operators \<open><\<close> and \<open>>\<close>: \<open>-k\<close> when \<open>a < b\<close>, \<open>k\<close> when \<open>b < a\<close>, 0 when neither holds,
  where two strings compare as case-sensitive strings (and any other pair as numbers);
  (5) the factor is -1 for \<open>'desc'\<close> and \<open>'descending'\<close> and 1 for every other state, and the
  result for \<open>-k\<close> is the result for \<open>k\<close> negated. Step 2 is stated for dates with no time
  of day; values that carry one are outside the statement.
\<close>

theorem compare_values_semantics:
  "compare_values eng k a b = compare_values eng k (nullish_to_empty a) (nullish_to_empty b)
   \<and> (eu_date_string da ma ya \<and> eu_date_string db mb yb \<longrightarrow>
        both_eu_dates (JStr (da @ ''/'' @ ma @ ''/'' @ ya)) (JStr (db @ ''/'' @ mb @ ''/'' @ yb))
        \<and> compare_values eng k (JStr (da @ ''/'' @ ma @ ''/'' @ ya)) (JStr (db @ ''/'' @ mb @ ''/'' @ yb))
          = compare_values eng k (JNum (Date_parse eng (ya @ ''-'' @ ma @ ''-'' @ da)))
                                 (JNum (Date_parse eng (yb @ ''-'' @ mb @ ''-'' @ db))))
   \<and> (eu_date_string da ma ya \<and> eu_date_string db mb yb
      \<and> Date_parse eng (ya @ ''-'' @ ma @ ''-'' @ da) = Fin x
      \<and> Date_parse eng (yb @ ''-'' @ mb @ ''-'' @ db) = Fin y \<longrightarrow>
        compare_values eng k (JStr (da @ ''/'' @ ma @ ''/'' @ ya)) (JStr (db @ ''/'' @ mb @ ''/'' @ yb))
        = num_scale k (num_sub (Fin x) (Fin y)))
   \<and> (\<not> both_eu_dates a b \<and> is_numeric (nullish_to_empty a) \<and> is_numeric (nullish_to_empty b) \<longrightarrow>
        compare_values eng k a b
        = num_scale k (num_sub (js_parseFloat (nullish_to_empty a))
                               (js_parseFloat (nullish_to_empty b))))
   \<and> (\<not> both_eu_dates a b \<and> \<not> (is_numeric (nullish_to_empty a) \<and> is_numeric (nullish_to_empty b)) \<longrightarrow>
        compare_values eng k a b
        = (if js_less (nullish_to_empty a) (nullish_to_empty b) then Fin (- k)
           else if js_less (nullish_to_empty b) (nullish_to_empty a) then Fin k else Fin 0))
   \<and> js_less (JStr s) (JStr t) = (s < t)
   \<and> compare_values eng (- k) a b = num_scale (- 1) (compare_values eng k a b)
   \<and> order_of ''desc'' = - 1 \<and> order_of ''descending'' = - 1
   \<and> (st \<noteq> ''desc'' \<and> st \<noteq> ''descending'' \<longrightarrow> order_of st = 1)"
proof (intro conjI impI)
  show "compare_values eng k a b = compare_values eng k (nullish_to_empty a) (nullish_to_empty b)"
    by (rule compare_values_nullish)
  show "compare_values eng (- k) a b = num_scale (- 1) (compare_values eng k a b)"
    by (rule compare_values_direction)
  show "js_less (JStr s) (JStr t) = (s < t)"
    by (simp add: js_less_def)
  show "order_of ''desc'' = - 1" "order_of ''descending'' = - 1"
    by (simp_all add: order_of_def)
next
  assume "eu_date_string da ma ya \<and> eu_date_string db mb yb"
  then show "both_eu_dates (JStr (da @ ''/'' @ ma @ ''/'' @ ya)) (JStr (db @ ''/'' @ mb @ ''/'' @ yb))"
    using compare_values_eu_dates(1) by blast
next
  assume "eu_date_string da ma ya \<and> eu_date_string db mb yb"
  then show "compare_values eng k (JStr (da @ ''/'' @ ma @ ''/'' @ ya)) (JStr (db @ ''/'' @ mb @ ''/'' @ yb))
             = compare_values eng k (JNum (Date_parse eng (ya @ ''-'' @ ma @ ''-'' @ da)))
                                    (JNum (Date_parse eng (yb @ ''-'' @ mb @ ''-'' @ db)))"
    using compare_values_eu_dates(2) by blast
next
  assume h: "eu_date_string da ma ya \<and> eu_date_string db mb yb
      \<and> Date_parse eng (ya @ ''-'' @ ma @ ''-'' @ da) = Fin x
      \<and> Date_parse eng (yb @ ''-'' @ mb @ ''-'' @ db) = Fin y"
  then have "compare_values eng k (JStr (da @ ''/'' @ ma @ ''/'' @ ya)) (JStr (db @ ''/'' @ mb @ ''/'' @ yb))
             = compare_values eng k (JNum (Fin x)) (JNum (Fin y))"
    using compare_values_eu_dates(2) [of da ma ya db mb yb eng k] by simp
  then show "compare_values eng k (JStr (da @ ''/'' @ ma @ ''/'' @ ya)) (JStr (db @ ''/'' @ mb @ ''/'' @ yb))
             = num_scale k (num_sub (Fin x) (Fin y))"
    by (simp only: compare_values_finite)
next
  assume "\<not> both_eu_dates a b \<and> is_numeric (nullish_to_empty a) \<and> is_numeric (nullish_to_empty b)"
  then show "compare_values eng k a b
        = num_scale k (num_sub (js_parseFloat (nullish_to_empty a))
                               (js_parseFloat (nullish_to_empty b)))"
    by (simp add: compare_values_unfold compare_after_def)
next
  assume "\<not> both_eu_dates a b \<and> \<not> (is_numeric (nullish_to_empty a) \<and> is_numeric (nullish_to_empty b))"
  then show "compare_values eng k a b
        = (if js_less (nullish_to_empty a) (nullish_to_empty b) then Fin (- k)
           else if js_less (nullish_to_empty b) (nullish_to_empty a) then Fin k else Fin 0)"
    by (auto simp add: compare_values_unfold compare_after_def)
next
  assume "st \<noteq> ''desc'' \<and> st \<noteq> ''descending''"
  then show "order_of st = 1" by (simp add: order_of_def)
qed

theorem compare_values_semantics_witness:
  "eu_date_string ''07'' ''05'' ''2023'' \<and> eu_date_string ''01'' ''06'' ''2023''
   \<and> both_eu_dates (JStr (''07'' @ ''/'' @ ''05'' @ ''/'' @ ''2023''))
                   (JStr (''01'' @ ''/'' @ ''06'' @ ''/'' @ ''2023''))
   \<and> compare_values strict_engine 1 (JStr (''07'' @ ''/'' @ ''05'' @ ''/'' @ ''2023''))
                                     (JStr (''01'' @ ''/'' @ ''06'' @ ''/'' @ ''2023''))
       = compare_values strict_engine 1
           (JNum (Date_parse strict_engine (''2023'' @ ''-'' @ ''05'' @ ''-'' @ ''07'')))
           (JNum (Date_parse strict_engine (''2023'' @ ''-'' @ ''06'' @ ''-'' @ ''01'')))
   \<and> Date_parse strict_engine (''2023'' @ ''-'' @ ''05'' @ ''-'' @ ''07'') = Fin 1683417600000
   \<and> Date_parse strict_engine (''2023'' @ ''-'' @ ''06'' @ ''-'' @ ''01'') = Fin 1685577600000
   \<and> compare_values strict_engine 1 (JStr (''07'' @ ''/'' @ ''05'' @ ''/'' @ ''2023''))
                                     (JStr (''01'' @ ''/'' @ ''06'' @ ''/'' @ ''2023''))
       = Fin (- 2160000000)
   \<and> \<not> both_eu_dates (JStr ''10'') (JStr ''9'')
   \<and> is_numeric (nullish_to_empty (JStr ''10'')) \<and> is_numeric (nullish_to_empty (JStr ''9''))
   \<and> compare_values strict_engine 1 (JStr ''10'') (JStr ''9'') = Fin 1
   \<and> \<not> both_eu_dates (JStr ''B'') JNull
   \<and> \<not> (is_numeric (nullish_to_empty (JStr ''B'')) \<and> is_numeric (nullish_to_empty JNull))
   \<and> compare_values strict_engine 1 (JStr ''B'') JNull = Fin 1
   \<and> ''asc'' \<noteq> ''desc'' \<and> ''asc'' \<noteq> ''descending'' \<and> order_of ''asc'' = 1"
proof -
  let ?eng = strict_engine
  let ?a = "JStr (''07'' @ ''/'' @ ''05'' @ ''/'' @ ''2023'')"
  let ?b = "JStr (''01'' @ ''/'' @ ''06'' @ ''/'' @ ''2023'')"
  have e: "eu_date_string ''07'' ''05'' ''2023''" "eu_date_string ''01'' ''06'' ''2023''"
    by code_simp+
  have p: "Date_parse ?eng (''2023'' @ ''-'' @ ''05'' @ ''-'' @ ''07'') = Fin 1683417600000"
    "Date_parse ?eng (''2023'' @ ''-'' @ ''06'' @ ''-'' @ ''01'') = Fin 1685577600000"
    by code_simp+
  have v: "num_scale 1 (num_sub (Fin 1683417600000) (Fin 1685577600000)) = Fin (- 2160000000)"
    by code_simp
  have n: "\<not> both_eu_dates (JStr ''10'') (JStr ''9'')"
    "is_numeric (nullish_to_empty (JStr ''10''))" "is_numeric (nullish_to_empty (JStr ''9''))"
    "num_scale 1 (num_sub (js_parseFloat (nullish_to_empty (JStr ''10'')))
                          (js_parseFloat (nullish_to_empty (JStr ''9'')))) = Fin 1"
    by code_simp+
  have r: "\<not> both_eu_dates (JStr ''B'') JNull"
    "\<not> (is_numeric (nullish_to_empty (JStr ''B'')) \<and> is_numeric (nullish_to_empty JNull))"
    "\<not> js_less (nullish_to_empty (JStr ''B'')) (nullish_to_empty JNull)"
    "js_less (nullish_to_empty JNull) (nullish_to_empty (JStr ''B''))"
    by code_simp+
  note d = compare_values_semantics
      [of ?eng 1 ?a ?b "''07''" "''05''" "''2023''" "''01''" "''06''" "''2023''"
          1683417600000 1685577600000]
  have d1: "both_eu_dates ?a ?b"
    using d e by blast
  have d2: "compare_values ?eng 1 ?a ?b
            = compare_values ?eng 1
                (JNum (Date_parse ?eng (''2023'' @ ''-'' @ ''05'' @ ''-'' @ ''07'')))
                (JNum (Date_parse ?eng (''2023'' @ ''-'' @ ''06'' @ ''-'' @ ''01'')))"
    using d e by blast
  have "compare_values ?eng 1 ?a ?b = num_scale 1 (num_sub (Fin 1683417600000) (Fin 1685577600000))"
    using d e p by blast
  then have d3: "compare_values ?eng 1 ?a ?b = Fin (- 2160000000)"
    by (simp only: v)
  have "compare_values strict_engine 1 (JStr ''10'') (JStr ''9'')
        = num_scale 1 (num_sub (js_parseFloat (nullish_to_empty (JStr ''10'')))
                               (js_parseFloat (nullish_to_empty (JStr ''9''))))"
    using compare_values_semantics [of strict_engine 1 "JStr ''10''" "JStr ''9''"] n(1-3) by blast
  then have n4: "compare_values strict_engine 1 (JStr ''10'') (JStr ''9'') = Fin 1"
    by (simp only: n(4))
  have "compare_values strict_engine 1 (JStr ''B'') JNull
        = (if js_less (nullish_to_empty (JStr ''B'')) (nullish_to_empty JNull) then Fin (- 1)
           else if js_less (nullish_to_empty JNull) (nullish_to_empty (JStr ''B'')) then Fin 1
           else Fin 0)"
    using compare_values_semantics [of strict_engine 1 "JStr ''B''" JNull] r(1,2) by blast
  then have r3: "compare_values strict_engine 1 (JStr ''B'') JNull = Fin 1"
    using r(3,4) by simp
  have o: "order_of ''asc'' = 1"
    using compare_values_semantics
      [of strict_engine 1 JNull JNull "[]" "[]" "[]" "[]" "[]" "[]" 0 0 "[]" "[]" "''asc''"]
    by simp
  show ?thesis
    using e d1 d2 p d3 n(1-3) n4 r(1,2) r3 o by simp
qed

text \<open>
  Claim C2, step 4 as the specification words it, fails on a number and a text that is not
  numeric: the value 5 and the string \<open>n/a\<close> are not both dates and not both numeric; as
  strings \<open>5\<close> is less than \<open>n/a\<close>, yet the comparison function returns 0.
\<close>

theorem compare_values_mixed_counterexample:
  "\<not> both_eu_dates (JNum (Fin 5)) (JStr ''n/a'')
   \<and> \<not> (is_numeric (JNum (Fin 5)) \<and> is_numeric (JStr ''n/a''))
   \<and> string_comparison 1 (JNum (Fin 5)) (JStr ''n/a'') = Fin (- 1)
   \<and> compare_values strict_engine 1 (JNum (Fin 5)) (JStr ''n/a'') = Fin 0
   \<and> compare_values strict_engine 1 (JNum (Fin 5)) (JStr ''n/a'')
       \<noteq> string_comparison 1 (JNum (Fin 5)) (JStr ''n/a'')"
  by code_simp



section \<open>Building the registry\<close>

lemma update_fresh: "k \<notin> fst ` set al \<Longrightarrow> AList.update k v al = al @ [(k, v)]"
  by (induction al) auto

lemma register_variable_ok:
  assumes "e = Decl v" "sourceField v = Some sf" "sf \<noteq> []" "\<forall>x\<in>set lst. \<exists>w. x = Decl w"
  shows "\<exists>vm'. register_variable lst i e vm = Inr vm'
           \<and> index vm' = AList.update (effective_uid i e) i (index vm)
           \<and> reverseIndex vm' = AList.update i (effective_uid i e) (reverseIndex vm)
           \<and> uids vm' = AList.update (effective_uid i e) sf (uids vm)
           \<and> sorting vm' = AList.update (effective_uid i e) ''none'' (sorting vm)
           \<and> filtering vm' = AList.update (effective_uid i e) [] (filtering vm)"
proof -
  have "Text (effective_uid i e) \<notin> set lst"
    using assms(4) by auto
  then show ?thesis
    using assms(1-3) by (simp add: register_variable_def Let_def effective_uid_def)
qed

lemma take_Suc_uids:
  "k < length dm \<Longrightarrow> take (Suc k) (uids_of dm) = take k (uids_of dm) @ [effective_uid k (dm ! k)]"
  by (simp add: uids_of_def take_Suc_conv_app_nth)

lemma createVariablesMaps_from_ok:
  assumes "well_declared dm" "variables_list dc = dm" "variables_size dc = length dm"
    and "k \<le> length dm"
    and "index (variables_maps dc) = zip (take k (uids_of dm)) [0 ..< k]"
    and "reverseIndex (variables_maps dc) = zip [0 ..< k] (take k (uids_of dm))"
    and "uids (variables_maps dc) = zip (take k (uids_of dm)) (take k (source_fields_of dm))"
    and "sorting (variables_maps dc) = map (\<lambda>u. (u, ''none'')) (take k (uids_of dm))"
    and "filtering (variables_maps dc) = map (\<lambda>u. (u, [])) (take k (uids_of dm))"
  shows "\<exists>vm. createVariablesMaps_from k dc = (Inr (), dc\<lparr>variables_maps := vm\<rparr>)
           \<and> index vm = zip (uids_of dm) [0 ..< length dm]
           \<and> reverseIndex vm = zip [0 ..< length dm] (uids_of dm)
           \<and> uids vm = zip (uids_of dm) (source_fields_of dm)
           \<and> sorting vm = map (\<lambda>u. (u, ''none'')) (uids_of dm)
           \<and> filtering vm = map (\<lambda>u. (u, [])) (uids_of dm)"
  using assms
proof (induction "length dm - k" arbitrary: k dc)
  case 0
  then have k: "k = length dm" by simp
  have l: "length (uids_of dm) = length dm" "length (source_fields_of dm) = length dm"
    by (simp_all add: uids_of_def source_fields_of_def)
  have "createVariablesMaps_from k dc = (Inr (), dc)"
    using 0 k by (subst createVariablesMaps_from.simps) simp
  moreover have "dc = dc\<lparr>variables_maps := variables_maps dc\<rparr>" by simp
  ultimately show ?case
    using 0 k l by (metis order_refl take_all)
next
  case (Suc n)
  then have k: "k < length dm" by simp
  let ?e = "dm ! k"
  let ?u = "effective_uid k ?e"
  have lu: "length (uids_of dm) = length dm" "length (source_fields_of dm) = length dm"
    by (simp_all add: uids_of_def source_fields_of_def)
  obtain v sf where e: "?e = Decl v" "sourceField v = Some sf" "sf \<noteq> []"
    using Suc.prems(1) k unfolding well_declared_def by (metis nth_mem)
  have all: "\<forall>x\<in>set (variables_list dc). \<exists>w. x = Decl w"
    using Suc.prems(1,2) unfolding well_declared_def by blast
  obtain vm' where r: "register_variable (variables_list dc) k ?e (variables_maps dc) = Inr vm'"
      "index vm' = AList.update ?u k (index (variables_maps dc))"
      "reverseIndex vm' = AList.update k ?u (reverseIndex (variables_maps dc))"
      "uids vm' = AList.update ?u sf (uids (variables_maps dc))"
      "sorting vm' = AList.update ?u ''none'' (sorting (variables_maps dc))"
      "filtering vm' = AList.update ?u [] (filtering (variables_maps dc))"
    using register_variable_ok [OF e all] by blast
  have uk: "uids_of dm ! k = ?u" using k by (simp add: uids_of_def)
  have fresh: "?u \<notin> set (take k (uids_of dm))"
  proof
    assume "?u \<in> set (take k (uids_of dm))"
    then obtain j where j: "j < k" "uids_of dm ! j = ?u"
      using k lu by (auto simp: in_set_conv_nth)
    then show False
      using Suc.prems(1) uk k lu unfolding well_declared_def
      by (metis distinct_conv_nth less_trans nat_neq_iff)
  qed
  have sfk: "source_fields_of dm ! k = sf"
    using k e by (simp add: source_fields_of_def or_default_def)
  have tk: "take (Suc k) (uids_of dm) = take k (uids_of dm) @ [?u]"
    using k by (rule take_Suc_uids)
  have ts: "take (Suc k) (source_fields_of dm) = take k (source_fields_of dm) @ [sf]"
    using k lu sfk by (simp add: take_Suc_conv_app_nth)
  have fr1: "?u \<notin> fst ` set (zip (take k (uids_of dm)) [0 ..< k])"
    using fresh by (auto dest: set_zip_leftD)
  have fr2: "k \<notin> fst ` set (zip [0 ..< k] (take k (uids_of dm)))"
    by (auto dest: set_zip_leftD)
  have fr3: "?u \<notin> fst ` set (zip (take k (uids_of dm)) (take k (source_fields_of dm)))"
    using fresh by (auto dest: set_zip_leftD)
  have fr4: "?u \<notin> fst ` set (map (\<lambda>u. (u, ''none'')) (take k (uids_of dm)))"
    using fresh by auto
  have fr5: "?u \<notin> fst ` set (map (\<lambda>u. (u, [])) (take k (uids_of dm)))"
    using fresh by auto
  have lk: "length (take k (uids_of dm)) = k" "length (take k (source_fields_of dm)) = k"
    using k lu by simp_all
  let ?dc = "dc\<lparr>variables_maps := vm'\<rparr>"
  have i1: "index (variables_maps ?dc) = zip (take (Suc k) (uids_of dm)) [0 ..< Suc k]"
    using r(2) Suc.prems(5) lk by (simp add: update_fresh [OF fr1] tk)
  have i2: "reverseIndex (variables_maps ?dc) = zip [0 ..< Suc k] (take (Suc k) (uids_of dm))"
    using r(3) Suc.prems(6) lk by (simp add: update_fresh [OF fr2] tk)
  have i3: "uids (variables_maps ?dc)
            = zip (take (Suc k) (uids_of dm)) (take (Suc k) (source_fields_of dm))"
    using r(4) Suc.prems(7) lk by (simp add: update_fresh [OF fr3] tk ts)
  have i4: "sorting (variables_maps ?dc) = map (\<lambda>u. (u, ''none'')) (take (Suc k) (uids_of dm))"
    using r(5) Suc.prems(8) by (simp add: update_fresh [OF fr4] tk)
  have i5: "filtering (variables_maps ?dc) = map (\<lambda>u. (u, [])) (take (Suc k) (uids_of dm))"
    using r(6) Suc.prems(9) by (simp add: update_fresh [OF fr5] tk)
  have n: "n = length dm - Suc k" using Suc.hyps(2) by simp
  have "\<exists>vm. createVariablesMaps_from (Suc k) ?dc = (Inr (), ?dc\<lparr>variables_maps := vm\<rparr>)
           \<and> index vm = zip (uids_of dm) [0 ..< length dm]
           \<and> reverseIndex vm = zip [0 ..< length dm] (uids_of dm)
           \<and> uids vm = zip (uids_of dm) (source_fields_of dm)
           \<and> sorting vm = map (\<lambda>u. (u, ''none'')) (uids_of dm)
           \<and> filtering vm = map (\<lambda>u. (u, [])) (uids_of dm)"
    using Suc.prems(1,2,3) k
    by (intro Suc.hyps(1) [OF n] i1 i2 i3 i4 i5) simp_all
  moreover have "createVariablesMaps_from k dc = createVariablesMaps_from (Suc k) ?dc"
    using k r(1) Suc.prems(2,3) by (subst createVariablesMaps_from.simps) simp
  ultimately show ?case by auto
qed


lemma built_registry_in_ordinal_order:
  assumes "well_declared dm"
  shows "in_ordinal_order (variables_maps (snd (createVariablesMaps (fresh_collection dm))))"
proof -
  let ?dc = "fresh_collection dm"
  obtain vm where vm: "createVariablesMaps_from 0 ?dc = (Inr (), ?dc\<lparr>variables_maps := vm\<rparr>)"
      "index vm = zip (uids_of dm) [0 ..< length dm]"
      "sorting vm = map (\<lambda>u. (u, ''none'')) (uids_of dm)"
    using createVariablesMaps_from_ok [OF assms, of ?dc 0]
    by (auto simp: fresh_collection_def empty_maps_def)
  have l: "length (uids_of dm) = length dm" by (simp add: uids_of_def)
  have "in_ordinal_order vm"
    using assms vm(2,3) l
    by (intro registry_in_ordinal_order [of "uids_of dm"]) (simp_all add: well_declared_def comp_def)
  then show ?thesis
    using vm(1) by (simp add: createVariablesMaps_def)
qed

lemma new_DataCollection_fresh: "new_DataCollection (Some dm) = Inr (fresh_collection dm)"
  by (simp add: new_DataCollection_def fresh_collection_def)

text \<open>
  Claim C5, as the code has it. For every list of field declarations, each an object with a
  non-empty source field, whose column identifiers are pairwise distinct, building the
  collection does not fail, whether or not two declarations share a source field: every
  declaration is registered under its identifier at its own ordinal, with its source field,
  the sort state \<open>'none'\<close> and the empty filter text.
\<close>

theorem shared_sourceField_is_registered:
  assumes "well_declared dm"
  shows "\<exists>vm. new_DataCollection (Some dm) = Inr (fresh_collection dm)
           \<and> buildDataCollection rawData (fresh_collection dm)
               = (Inr (), createDataSet rawData ((fresh_collection dm)\<lparr>variables_maps := vm\<rparr>))
           \<and> index vm = zip (uids_of dm) [0 ..< length dm]
           \<and> reverseIndex vm = zip [0 ..< length dm] (uids_of dm)
           \<and> uids vm = zip (uids_of dm) (source_fields_of dm)
           \<and> sorting vm = map (\<lambda>u. (u, ''none'')) (uids_of dm)
           \<and> filtering vm = map (\<lambda>u. (u, [])) (uids_of dm)"
proof -
  let ?dc = "fresh_collection dm"
  obtain vm where vm: "createVariablesMaps_from 0 ?dc = (Inr (), ?dc\<lparr>variables_maps := vm\<rparr>)"
      "index vm = zip (uids_of dm) [0 ..< length dm]"
      "reverseIndex vm = zip [0 ..< length dm] (uids_of dm)"
      "uids vm = zip (uids_of dm) (source_fields_of dm)"
      "sorting vm = map (\<lambda>u. (u, ''none'')) (uids_of dm)"
      "filtering vm = map (\<lambda>u. (u, [])) (uids_of dm)"
    using createVariablesMaps_from_ok [OF assms, of ?dc 0]
    by (auto simp: fresh_collection_def empty_maps_def)
  have "buildDataCollection rawData ?dc
        = (Inr (), createDataSet rawData (?dc\<lparr>variables_maps := vm\<rparr>))"
    using vm(1) by (simp add: buildDataCollection_def createVariablesMaps_def)
  then show ?thesis
    using vm(2-6) new_DataCollection_fresh by blast
qed

theorem shared_sourceField_is_registered_witness:
  "well_declared two_emails
   \<and> source_fields_of two_emails = [''email'', ''email'']
   \<and> uids_of two_emails = [''var_uid_0'', ''var_uid_1'']
   \<and> fst (buildDataCollection None (fresh_collection two_emails)) = Inr ()"
proof -
  have "distinct (uids_of two_emails)" by code_simp
  then have w: "well_declared two_emails"
    by (simp add: well_declared_def two_emails_def field_decl_def)
  have "source_fields_of two_emails = [''email'', ''email'']"
    "uids_of two_emails = [''var_uid_0'', ''var_uid_1'']"
    by code_simp+
  moreover have "fst (buildDataCollection None (fresh_collection two_emails)) = Inr ()"
    using shared_sourceField_is_registered [OF w, of None] by auto
  ultimately show ?thesis
    using w by simp
qed

text \<open>
  Claim C5 as stated fails at two declarations that both use the source field \<open>email\<close>:
  building the collection returns without an error, and both columns are in the registry.
\<close>

theorem duplicate_sourceField_counterexample:
  "fst (buildDataCollection None (fresh_collection two_emails)) = Inr ()
   \<and> uids (variables_maps (snd (buildDataCollection None (fresh_collection two_emails))))
       = [(''var_uid_0'', ''email''), (''var_uid_1'', ''email'')]
   \<and> index (variables_maps (snd (buildDataCollection None (fresh_collection two_emails))))
       = [(''var_uid_0'', 0), (''var_uid_1'', 1)]"
  by code_simp

end
